theory Spec2Isabelle
  imports Complex_Main "HOL-Library.Word" "HOL-Library.Log_Nat" "HOL-Library.Multiset"
begin

section \<open>Python values, errors and string formatting\<close>

text \<open>
  Exceptions of the Python source are values: every function that can raise returns
  \<open>py_error + 'a\<close>, with \<open>Inl\<close> for the exception.
\<close>

datatype py_error =
    IndexError
  | OverflowError
  | StructError
  | ValueError
  | ZeroDivisionError
  | RequestsTimeout
  | OtherException

definition bind_err :: "py_error + 'a \<Rightarrow> ('a \<Rightarrow> py_error + 'b) \<Rightarrow> py_error + 'b" where
  "bind_err m f = (case m of Inl e \<Rightarrow> Inl e | Inr v \<Rightarrow> f v)"

text \<open>\<^verbatim>\<open>str(n)\<close> for a Python integer, as the f-strings of the source apply it.\<close>

definition digit_char :: "nat \<Rightarrow> char" where
  "digit_char d = ''0123456789'' ! (d mod 10)"

fun str_nat :: "nat \<Rightarrow> string" where
  "str_nat n = (if n < 10 then [digit_char n] else str_nat (n div 10) @ [digit_char (n mod 10)])"

declare str_nat.simps [simp del]

definition str_int :: "int \<Rightarrow> string" where
  "str_int i = (if i < 0 then CHR ''-'' # str_nat (nat (- i)) else str_nat (nat i))"

text \<open>\<^verbatim>\<open>sep.join(parts)\<close>.\<close>

fun join_str :: "string \<Rightarrow> string list \<Rightarrow> string" where
  "join_str sep [] = []"
| "join_str sep [p] = p"
| "join_str sep (p # q # ps) = p @ sep @ join_str sep (q # ps)"

section \<open>The API client (\<^verbatim>\<open>NanoleafAPI\<close> in \<^verbatim>\<open>__init__.py\<close>)\<close>

type_synonym byte = "8 word"
type_synonym rgb = "int \<times> int \<times> int"

text \<open>
  A Python dict keeps insertion order and has one entry per key: it is an association
  list, and \<^verbatim>\<open>d[k] = v\<close> replaces the value of an existing key in place or appends.
\<close>

type_synonym panel_colors = "(int \<times> rgb) list"

fun dict_set :: "'k \<Rightarrow> 'v \<Rightarrow> ('k \<times> 'v) list \<Rightarrow> ('k \<times> 'v) list" where
  "dict_set k v [] = [(k, v)]"
| "dict_set k v (p # ps) = (if fst p = k then (k, v) # ps else p # dict_set k v ps)"

record api =
  host :: string
  token :: string
  udp_socket :: "unit option"
  udp_port :: "nat option"
  external_control_enabled :: bool

definition DEFAULT_PORT :: int where
  "DEFAULT_PORT = 16021"

definition base_url :: "api \<Rightarrow> string" where
  "base_url a = ''http://'' @ host a @ '':'' @ str_int DEFAULT_PORT @ ''/api/v1/'' @ token a"

text \<open>The JSON body of the \<^verbatim>\<open>PUT /effects\<close> request.\<close>

record effect_write =
  command :: string
  animType :: string
  animData :: string
  loop :: bool
  palette :: "string list"

text \<open>
  What the client does on the network, in order: the HTTP requests it issues (URL, body,
  timeout in seconds) and the datagrams it hands to the socket (payload, host, port).
\<close>

datatype io_event =
    HttpPut string effect_write rat
  | UdpSendto "byte list" string "nat option"

text \<open>
  The outcome of a network call is not decided by the program: it is a parameter.
  \<^verbatim>\<open>requests.put\<close> returns a response (its status code) or raises;
  \<^verbatim>\<open>socket.sendto\<close> returns or raises.
\<close>

datatype put_outcome = Responds nat | PutRaises py_error
datatype send_outcome = Sent | SendRaises py_error

definition requests_put :: "put_outcome \<Rightarrow> py_error + nat" where
  "requests_put oc = (case oc of Responds status \<Rightarrow> Inr status | PutRaises e \<Rightarrow> Inl e)"

definition socket_sendto :: "send_outcome \<Rightarrow> py_error + unit" where
  "socket_sendto oc = (case oc of Sent \<Rightarrow> Inr () | SendRaises e \<Rightarrow> Inl e)"

definition anim_part :: "int \<Rightarrow> int \<Rightarrow> int \<Rightarrow> int \<Rightarrow> int \<Rightarrow> string" where
  "anim_part panel_id r g b transition_time =
     str_int panel_id @ '' 1 '' @ str_int r @ '' '' @ str_int g @ '' '' @ str_int b
       @ '' 0 '' @ str_int transition_time"

definition custom_effect :: "string \<Rightarrow> effect_write" where
  "custom_effect anim_data =
     \<lparr>command = ''display'', animType = ''custom'', animData = anim_data,
      loop = False, palette = []\<rparr>"

definition set_multiple_panels ::
  "api \<Rightarrow> panel_colors \<Rightarrow> int \<Rightarrow> put_outcome \<Rightarrow> io_event list \<times> (py_error + unit)" where
  "set_multiple_panels a panel_colors transition_time oc =
     (let url = base_url a @ ''/effects'';
          anim_parts = map (\<lambda>(panel_id, (r, g, b)). anim_part panel_id r g b transition_time)
                         panel_colors;
          num_panels = int (length panel_colors);
          anim_data = str_int num_panels @ '' '' @ join_str '' '' anim_parts;
          effect_data = custom_effect anim_data
      in ([HttpPut url effect_data (1 / 2)],
          case requests_put oc of
            Inr response \<Rightarrow> Inr ()
          | Inl RequestsTimeout \<Rightarrow> Inr ()
          | Inl _ \<Rightarrow> Inr ()))"

text \<open>
  \<^verbatim>\<open>struct.pack('>H', v)\<close> and \<^verbatim>\<open>struct.pack('>B', v)\<close>: big-endian unsigned, and
  \<^verbatim>\<open>struct.error\<close> when the value does not fit.
\<close>

definition pack_H :: "int \<Rightarrow> py_error + byte list" where
  "pack_H v = (if 0 \<le> v \<and> v < 65536 then Inr [word_of_int (v div 256), word_of_int (v mod 256)]
               else Inl StructError)"

definition pack_B :: "int \<Rightarrow> py_error + byte list" where
  "pack_B v = (if 0 \<le> v \<and> v < 256 then Inr [word_of_int v] else Inl StructError)"

text \<open>\<^verbatim>\<open>struct.pack('>HBBBBH', panel_id, r, g, b, 0, trans_time)\<close>.\<close>

definition pack_panel :: "int \<Rightarrow> int \<Rightarrow> int \<Rightarrow> int \<Rightarrow> int \<Rightarrow> int \<Rightarrow> py_error + byte list" where
  "pack_panel panel_id r g b w trans_time =
     bind_err (pack_H panel_id) (\<lambda>bi.
     bind_err (pack_B r) (\<lambda>br.
     bind_err (pack_B g) (\<lambda>bg.
     bind_err (pack_B b) (\<lambda>bb.
     bind_err (pack_B w) (\<lambda>bw.
     bind_err (pack_H trans_time) (\<lambda>bt.
     Inr (bi @ br @ bg @ bb @ bw @ bt)))))))"

text \<open>The loop \<^verbatim>\<open>for panel_id, (r, g, b) in panel_colors.items(): packet += ...\<close>.\<close>

fun pack_panels :: "panel_colors \<Rightarrow> int \<Rightarrow> byte list \<Rightarrow> py_error + byte list" where
  "pack_panels [] trans_time packet = Inr packet"
| "pack_panels ((panel_id, (r, g, b)) # rest) trans_time packet =
     bind_err (pack_panel panel_id r g b 0 trans_time) (\<lambda>bs.
       pack_panels rest trans_time (packet @ bs))"

definition build_packet :: "panel_colors \<Rightarrow> bool \<Rightarrow> py_error + byte list" where
  "build_packet panel_colors smooth =
     (let num_panels = int (length panel_colors)
      in bind_err (pack_H num_panels) (\<lambda>packet.
           let trans_time = (if smooth then 2 else 0)
           in pack_panels panel_colors trans_time packet))"

definition set_multiple_panels_udp ::
  "api \<Rightarrow> panel_colors \<Rightarrow> bool \<Rightarrow> send_outcome \<Rightarrow> put_outcome
     \<Rightarrow> io_event list \<times> (py_error + unit)" where
  "set_multiple_panels_udp a panel_colors smooth so po =
     (if \<not> external_control_enabled a \<or> udp_socket a = None
      then set_multiple_panels a panel_colors 0 po
      else
        case build_packet panel_colors smooth of
          Inl err \<Rightarrow> set_multiple_panels a panel_colors 0 po
        | Inr packet \<Rightarrow>
            (case socket_sendto so of
               Inr _ \<Rightarrow> ([UdpSendto packet (host a) (udp_port a)], Inr ())
             | Inl err \<Rightarrow>
                 (let (events, result) = set_multiple_panels a panel_colors 0 po
                  in (UdpSendto packet (host a) (udp_port a) # events, result))))"

section \<open>The wire formats, as the device reads them\<close>

text \<open>
  The control-plane text of a custom animation:
  \<^verbatim>\<open><N> <id> 1 <r> <g> <b> 0 <tenths>\<close> with the part after \<^verbatim>\<open><N>\<close> repeated per panel.
\<close>

definition control_plane_text :: "panel_colors \<Rightarrow> int \<Rightarrow> string" where
  "control_plane_text pcs t =
     str_int (int (length pcs)) @ '' '' @
       join_str '' '' (map (\<lambda>(pid, (r, g, b)). anim_part pid r g b t) pcs)"

text \<open>
  The streaming datagram, read back as the receiver of the documented format does:
  \<^verbatim>\<open>uint16 panel_count\<close>, then \<^verbatim>\<open>panel_count\<close> times \<^verbatim>\<open>(uint16 panel_id, uint8 r,
  uint8 g, uint8 b, uint8 reserved, uint16 transition_tenths)\<close>, all big-endian. The
  source has no decoder; this one follows the format, and the encoder is compared with it.
\<close>

type_synonym frame_entry = "int \<times> int \<times> int \<times> int \<times> int \<times> int"

definition u16_be :: "byte \<Rightarrow> byte \<Rightarrow> int" where
  "u16_be hi lo = uint hi * 256 + uint lo"

fun decode_panels :: "nat \<Rightarrow> byte list \<Rightarrow> frame_entry list option" where
  "decode_panels 0 bs = (if bs = [] then Some [] else None)"
| "decode_panels (Suc n) (i1 # i0 # r # g # b # w # t1 # t0 # rest) =
     map_option ((#) (u16_be i1 i0, uint r, uint g, uint b, uint w, u16_be t1 t0))
       (decode_panels n rest)"
| "decode_panels (Suc n) bs = None"

definition decode_frame :: "byte list \<Rightarrow> (int \<times> frame_entry list) option" where
  "decode_frame bs =
     (case bs of
        c1 # c0 # rest \<Rightarrow>
          map_option (Pair (u16_be c1 c0)) (decode_panels (nat (u16_be c1 c0)) rest)
      | _ \<Rightarrow> None)"

text \<open>The eight bytes of one panel, written out.\<close>

definition frame_bytes :: "int \<Rightarrow> int \<times> rgb \<Rightarrow> byte list" where
  "frame_bytes t = (\<lambda>(pid, (r, g, b)).
     [word_of_int (pid div 256), word_of_int (pid mod 256), word_of_int r, word_of_int g,
      word_of_int b, 0, word_of_int (t div 256), word_of_int (t mod 256)])"

text \<open>
  A mapping fits the datagram when it has fewer than \<open>2^16\<close> entries, every panel id is
  below \<open>2^16\<close> and every channel is in 0..255.
\<close>

definition wire_ok :: "panel_colors \<Rightarrow> bool" where
  "wire_ok pcs = (length pcs < 65536 \<and>
     list_all (\<lambda>(pid, (r, g, b)). 0 \<le> pid \<and> pid < 65536 \<and> 0 \<le> r \<and> r < 256
        \<and> 0 \<le> g \<and> g < 256 \<and> 0 \<le> b \<and> b < 256) pcs)"

text \<open>
  What a streaming send with \<^verbatim>\<open>smooth=True\<close> is to put on the network for a mapping, in
  terms of the two wire formats: with a negotiated channel and a mapping that fits the
  datagram, the one datagram, followed by the control-plane command when the send fails;
  in every other case the control-plane command alone.
\<close>

definition expected_group_events :: "api \<Rightarrow> panel_colors \<Rightarrow> send_outcome \<Rightarrow> io_event list" where
  "expected_group_events a pcs so =
     (let put = HttpPut (base_url a @ ''/effects'') (custom_effect (control_plane_text pcs 0))
                  (1 / 2);
          datagram = UdpSendto
                       ([word_of_int (int (length pcs) div 256),
                         word_of_int (int (length pcs) mod 256)]
                          @ concat (map (frame_bytes 2) pcs))
                       (host a) (udp_port a)
      in if external_control_enabled a \<and> udp_socket a \<noteq> None \<and> wire_ok pcs
         then (case so of Sent \<Rightarrow> [datagram] | SendRaises err \<Rightarrow> [datagram, put])
         else [put])"

section \<open>Segments and grouping (\<^verbatim>\<open>group.py\<close>, \<^verbatim>\<open>light.py\<close>)\<close>

text \<open>
  A segment is one entry of the layout's \<^verbatim>\<open>positionData\<close>, with the angle that
  \<^verbatim>\<open>get_all_segments\<close> attaches. The JSON keys \<^verbatim>\<open>x\<close>, \<^verbatim>\<open>y\<close> and \<^verbatim>\<open>o\<close> are the fields
  \<open>seg_x\<close>, \<open>seg_y\<close> and \<open>seg_o\<close>.
\<close>

record segment =
  panelId :: int
  seg_x :: int
  seg_y :: int
  seg_o :: int
  shapeType :: int
  angle_deg :: "real option"

text \<open>The sort key \<^verbatim>\<open>s.get("angle_deg", 0)\<close>.\<close>

definition angle_key :: "segment \<Rightarrow> real" where
  "angle_key s = (case angle_deg s of None \<Rightarrow> 0 | Some a \<Rightarrow> a)"

text \<open>
  The loop \<^verbatim>\<open>for i in range(0, len(sorted_segments), group_size)\<close> with the slice
  \<^verbatim>\<open>sorted_segments[i:i + group_size]\<close>, for a positive step.
\<close>

function group_loop :: "'a list \<Rightarrow> nat \<Rightarrow> nat \<Rightarrow> 'a list list" where
  "group_loop sorted_segments group_size i =
     (if group_size = 0 \<or> length sorted_segments \<le> i then []
      else take group_size (drop i sorted_segments)
             # group_loop sorted_segments group_size (i + group_size))"
  by pat_completeness auto
termination
  by (relation "measure (\<lambda>(xs, g, i). length xs - i)") auto

declare group_loop.simps [simp del]

text \<open>
  \<^verbatim>\<open>sorted\<close> is stable, as \<open>sort_key\<close> is. \<^verbatim>\<open>range\<close> raises \<^verbatim>\<open>ValueError\<close> for a zero
  step and is empty for a negative one.
\<close>

definition create_groups_by_position :: "segment list \<Rightarrow> int \<Rightarrow> py_error + segment list list" where
  "create_groups_by_position segments group_size =
     (let sorted_segments = sort_key angle_key segments
      in if group_size = 0 then Inl ValueError
         else if group_size < 0 then Inr []
         else Inr (group_loop sorted_segments (nat group_size) 0))"

text \<open>\<^verbatim>\<open>xs[i]\<close>: a negative index counts from the end, and out of range raises.\<close>

definition py_getitem :: "'a list \<Rightarrow> int \<Rightarrow> py_error + 'a" where
  "py_getitem xs i =
     (if 0 \<le> i \<and> i < int (length xs) then Inr (xs ! nat i)
      else if i < 0 \<and> - int (length xs) \<le> i then Inr (xs ! nat (int (length xs) + i))
      else Inl IndexError)"

text \<open>\<^verbatim>\<open>[segments[i] for i in group_indices if i < len(segments)]\<close> in \<^verbatim>\<open>light.py\<close>.\<close>

fun select_segments :: "'a list \<Rightarrow> int list \<Rightarrow> py_error + 'a list" where
  "select_segments segments [] = Inr []"
| "select_segments segments (i # rest) =
     (if i < int (length segments)
      then bind_err (py_getitem segments i) (\<lambda>s.
           bind_err (select_segments segments rest) (\<lambda>ss. Inr (s # ss)))
      else select_segments segments rest)"

text \<open>
  The loop over \<^verbatim>\<open>manual_groups\<close>: a group is appended only when it is not empty.
\<close>

fun manual_groups_loop :: "'a list \<Rightarrow> int list list \<Rightarrow> 'a list list \<Rightarrow> py_error + 'a list list" where
  "manual_groups_loop segments [] groups = Inr groups"
| "manual_groups_loop segments (group_indices # rest) groups =
     bind_err (select_segments segments group_indices) (\<lambda>group_segments.
       manual_groups_loop segments rest
         (if group_segments \<noteq> [] then groups @ [group_segments] else groups))"

definition DEFAULT_GROUP_SIZE :: int where
  "DEFAULT_GROUP_SIZE = 3"

text \<open>
  The choice in \<^verbatim>\<open>async_setup_entry\<close>: \<^verbatim>\<open>if manual_groups:\<close> holds for a non-empty list;
  \<open>None\<close> (the option is not set) and the empty list take the automatic grouping.
\<close>

definition setup_groups :: "segment list \<Rightarrow> int list list option \<Rightarrow> py_error + segment list list" where
  "setup_groups segments manual_groups =
     (case manual_groups of
        Some (g # gs) \<Rightarrow> manual_groups_loop segments (g # gs) []
      | _ \<Rightarrow> create_groups_by_position segments DEFAULT_GROUP_SIZE)"

section \<open>Python floats: IEEE 754 binary64 on exact rationals\<close>

text \<open>
  A finite Python float is a rational number of the form \<open>m * 2^e\<close> with \<open>|m| < 2^53\<close>.
  Every arithmetic operation of the source on floats is the exact operation followed by
  rounding to the nearest such number, ties to the even mantissa. The sign of zero is not
  kept: no operation of the source depends on it.
\<close>

text \<open>Rounding to the nearest integer, ties to even.\<close>

definition round_half_even :: "'a::floor_ceiling \<Rightarrow> int" where
  "round_half_even q =
     (let n = \<lfloor>q\<rfloor>; r = q - of_int n
      in if r < 1 / 2 then n else if 1 / 2 < r then n + 1 else if even n then n else n + 1)"

text \<open>
  The binade of a non-zero rational: the \<open>e\<close> with \<open>2^e \<le> |q| < 2^(e+1)\<close>, from the bit
  lengths of numerator and denominator.
\<close>

definition binade :: "rat \<Rightarrow> int" where
  "binade q =
     (let (n, d) = quotient_of \<bar>q\<bar>; e = bitlen n - bitlen d
      in if 2 powi e \<le> \<bar>q\<bar> then e else e - 1)"

text \<open>
  The exponent of the unit in the last place: 52 below the binade, and never below that of
  the subnormal numbers.
\<close>

definition ulp_exp :: "rat \<Rightarrow> int" where
  "ulp_exp q = max (binade q) (- 1022) - 52"

text \<open>Rounding to binary64, before the test for overflow.\<close>

definition double_round :: "rat \<Rightarrow> rat" where
  "double_round q =
     (if q = 0 then 0
      else let u = 2 powi ulp_exp q in of_int (round_half_even (q / u)) * u)"

text \<open>The largest finite binary64 number.\<close>

definition double_max :: rat where
  "double_max = (2 ^ 53 - 1) * 2 ^ 971"

text \<open>
  The result of a float operation is finite or an infinity (its sign is not kept: the
  source only converts such a result with \<^verbatim>\<open>int\<close>, which raises for both).
\<close>

datatype py_float = Fin rat | Infinite

text \<open>
  \<^verbatim>\<open>a / b\<close> on Python integers: the correctly rounded quotient, \<^verbatim>\<open>ZeroDivisionError\<close> for
  a zero divisor and \<^verbatim>\<open>OverflowError\<close> when the quotient is too large for a float.
\<close>

definition py_int_truediv :: "int \<Rightarrow> int \<Rightarrow> py_error + rat" where
  "py_int_truediv a b =
     (if b = 0 then Inl ZeroDivisionError
      else let q = double_round (of_int a / of_int b)
           in if double_max < \<bar>q\<bar> then Inl OverflowError else Inr q)"

text \<open>The conversion of an integer operand of a mixed \<^verbatim>\<open>int * float\<close> product.\<close>

definition py_float_of_int :: "int \<Rightarrow> py_error + rat" where
  "py_float_of_int i =
     (let q = double_round (of_int i)
      in if double_max < \<bar>q\<bar> then Inl OverflowError else Inr q)"

text \<open>\<^verbatim>\<open>a * b\<close> on floats: overflow gives an infinity, not an exception.\<close>

definition py_float_mul :: "rat \<Rightarrow> rat \<Rightarrow> py_float" where
  "py_float_mul a b =
     (let q = double_round (a * b) in if double_max < \<bar>q\<bar> then Infinite else Fin q)"

text \<open>\<^verbatim>\<open>int(f)\<close>: truncation towards zero; \<^verbatim>\<open>OverflowError\<close> for an infinity.\<close>

definition py_int_of_float :: "py_float \<Rightarrow> py_error + int" where
  "py_int_of_float f =
     (case f of
        Fin q \<Rightarrow> Inr (if 0 \<le> q then \<lfloor>q\<rfloor> else \<lceil>q\<rceil>)
      | Infinite \<Rightarrow> Inl OverflowError)"

text \<open>
  Brightness scaling, as \<^verbatim>\<open>light.py\<close> and \<^verbatim>\<open>group.py\<close> write it:
  \<^verbatim>\<open>factor = brightness / 255\<close> and then, per channel, \<^verbatim>\<open>int(r * factor)\<close>.
\<close>

definition scale_channel :: "int \<Rightarrow> rat \<Rightarrow> py_error + int" where
  "scale_channel c factor =
     bind_err (py_float_of_int c) (\<lambda>cf. py_int_of_float (py_float_mul cf factor))"

text \<open>One channel scaled by one brightness: both statements together.\<close>

definition scaled :: "int \<Rightarrow> int \<Rightarrow> py_error + int" where
  "scaled c brightness = bind_err (py_int_truediv brightness 255) (scale_channel c)"

section \<open>Commanded state and the state stores (\<^verbatim>\<open>light.py\<close>, \<^verbatim>\<open>group.py\<close>)\<close>

record commanded_state =
  is_on :: bool
  brightness :: int
  rgb_color :: rgb

definition default_state :: commanded_state where
  "default_state = \<lparr>is_on = True, brightness = 255, rgb_color = (255, 255, 255)\<rparr>"

text \<open>
  \<^verbatim>\<open>SEGMENT_STATES\<close> and \<^verbatim>\<open>GROUP_STATES\<close>: module-level dicts from a string key to a state.
\<close>

type_synonym state_store = "string \<rightharpoonup> commanded_state"

text \<open>\<^verbatim>\<open>STATES.get(key, {"is_on": True, "brightness": 255, "rgb_color": (255, 255, 255)})\<close>.\<close>

definition store_get :: "state_store \<Rightarrow> string \<Rightarrow> commanded_state" where
  "store_get store key = (case store key of None \<Rightarrow> default_state | Some s \<Rightarrow> s)"

text \<open>
  \<^verbatim>\<open>state = self._segment_state\<close> followed by assignments to \<^verbatim>\<open>state[...]\<close>: the dict of
  the store is changed in place when the key is there; for an absent key \<^verbatim>\<open>get\<close> hands
  out a fresh default dict and the assignments are lost.
\<close>

definition store_update ::
  "state_store \<Rightarrow> string \<Rightarrow> (commanded_state \<Rightarrow> commanded_state) \<Rightarrow> state_store" where
  "store_update store key f = (case store key of None \<Rightarrow> store | Some s \<Rightarrow> store(key \<mapsto> f s))"

text \<open>The constructors put the default state under a key that is not there yet.\<close>

definition store_init :: "state_store \<Rightarrow> string \<Rightarrow> state_store" where
  "store_init store key = (case store key of None \<Rightarrow> store(key \<mapsto> default_state) | Some s \<Rightarrow> store)"


definition group_state_key :: "string \<Rightarrow> int \<Rightarrow> string" where
  "group_state_key entry_id index = entry_id @ ''_group_'' @ str_int index"

text \<open>
  The colour sent for a state: the same code in \<^verbatim>\<open>_async_set_panel_color\<close> (for the
  entity's own panel and again for every other panel) and in \<^verbatim>\<open>_async_set_group_color\<close>.
\<close>

definition apply_brightness :: "rgb \<Rightarrow> int \<Rightarrow> py_error + rgb" where
  "apply_brightness color bri =
     (case color of (r, g, b) \<Rightarrow>
        bind_err (py_int_truediv bri 255) (\<lambda>factor.
        bind_err (scale_channel r factor) (\<lambda>r'.
        bind_err (scale_channel g factor) (\<lambda>g'.
        bind_err (scale_channel b factor) (\<lambda>b'.
        Inr (r', g', b'))))))"

definition visible_color :: "commanded_state \<Rightarrow> py_error + rgb" where
  "visible_color state =
     (if is_on state then apply_brightness (rgb_color state) (brightness state)
      else Inr (0, 0, 0))"

text \<open>A state whose brightness and channels are in 0..255.\<close>

definition state_in_range :: "commanded_state \<Rightarrow> bool" where
  "state_in_range s =
     (case rgb_color s of (r, g, b) \<Rightarrow>
        0 \<le> brightness s \<and> brightness s \<le> 255 \<and> 0 \<le> r \<and> r \<le> 255
        \<and> 0 \<le> g \<and> g \<le> 255 \<and> 0 \<le> b \<and> b \<le> 255)"

text \<open>What the truncating scaling gives for one channel, where the exact product decides.\<close>

definition truncated_scale :: "int \<Rightarrow> int \<Rightarrow> int \<Rightarrow> bool" where
  "truncated_scale c bri v =
     (0 \<le> v \<and> v \<le> 255 \<and>
      (\<not> 255 dvd c * bri \<or> bri = 255 \<or> bri = 0 \<or> c = 255 \<or> c = 0 \<longrightarrow>
         v = (c * bri) div 255))"

text \<open>
  The colour the device is to show for a state, as the claims describe it: (0,0,0) when the
  state is off, and otherwise each channel scaled by the brightness and truncated.
\<close>

definition scaled_color :: "commanded_state \<Rightarrow> rgb \<Rightarrow> bool" where
  "scaled_color s col =
     (case rgb_color s of (r, g, b) \<Rightarrow>
        case col of (r', g', b') \<Rightarrow>
          if is_on s
          then truncated_scale r (brightness s) r' \<and> truncated_scale g (brightness s) g'
               \<and> truncated_scale b (brightness s) b'
          else r' = 0 \<and> g' = 0 \<and> b' = 0)"

section \<open>Entity commands (\<^verbatim>\<open>light.py\<close>, \<^verbatim>\<open>group.py\<close>)\<close>

text \<open>
  The keyword arguments of \<^verbatim>\<open>async_turn_on\<close>; each may be absent. A transition is a
  Python number, an \<^verbatim>\<open>int\<close> or a finite \<^verbatim>\<open>float\<close> (given by its exact value).
\<close>

datatype py_num = PyInt int | PyFloat rat

record turn_on_kwargs =
  kw_brightness :: "int option"
  kw_rgb_color :: "rgb option"
  kw_transition :: "py_num option"



text \<open>The assignments of \<^verbatim>\<open>async_turn_on\<close> to the state, in the order of the source.\<close>

definition apply_turn_on :: "turn_on_kwargs \<Rightarrow> commanded_state \<Rightarrow> commanded_state" where
  "apply_turn_on kw s =
     (let s1 = s\<lparr>is_on := True\<rparr>;
          s2 = (case kw_brightness kw of None \<Rightarrow> s1 | Some v \<Rightarrow> s1\<lparr>brightness := v\<rparr>)
      in case kw_rgb_color kw of None \<Rightarrow> s2 | Some c \<Rightarrow> s2\<lparr>rgb_color := c\<rparr>)"

definition apply_turn_off :: "commanded_state \<Rightarrow> commanded_state" where
  "apply_turn_off s = s\<lparr>is_on := False\<rparr>"






text \<open>
  \<^verbatim>\<open>NanoleafSegmentGroup\<close>: the panel ids of the group's segments, and the dict
  \<^verbatim>\<open>panel_colors\<close> that \<^verbatim>\<open>_async_set_group_color\<close> fills for them.
\<close>

definition group_panel_ids :: "segment list \<Rightarrow> int list" where
  "group_panel_ids segments = map panelId segments"

definition build_group_colors :: "int list \<Rightarrow> rgb \<Rightarrow> panel_colors" where
  "build_group_colors panel_ids color =
     foldl (\<lambda>panel_colors panel_id. dict_set panel_id color panel_colors) [] panel_ids"

text \<open>
  \<^verbatim>\<open>_async_set_group_color\<close>: the colour of the group's state, the dict, and the streaming
  send with \<^verbatim>\<open>smooth=True\<close>. Should the direct call raise, the same send is scheduled once
  more. Its \<^verbatim>\<open>transition\<close> argument is not used. An exception before the send is caught and
  logged, and nothing is sent.
\<close>

definition async_set_group_color ::
  "api \<Rightarrow> string \<Rightarrow> int \<Rightarrow> int list \<Rightarrow> state_store \<Rightarrow> send_outcome \<Rightarrow> put_outcome
     \<Rightarrow> io_event list" where
  "async_set_group_color a entry_id index panel_ids group_states so po =
     (case visible_color (store_get group_states (group_state_key entry_id index)) of
        Inl err \<Rightarrow> []
      | Inr color \<Rightarrow>
          (let panel_colors = build_group_colors panel_ids color;
               (events, result) = set_multiple_panels_udp a panel_colors True so po
           in case result of
                Inr _ \<Rightarrow> events
              | Inl _ \<Rightarrow> events @ fst (set_multiple_panels_udp a panel_colors True so po)))"

text \<open>\<^verbatim>\<open>NanoleafSegmentGroup.async_turn_on\<close> and \<^verbatim>\<open>async_turn_off\<close>.\<close>

definition group_async_turn_on ::
  "api \<Rightarrow> string \<Rightarrow> int \<Rightarrow> int list \<Rightarrow> turn_on_kwargs \<Rightarrow> state_store
     \<Rightarrow> send_outcome \<Rightarrow> put_outcome \<Rightarrow> io_event list \<times> state_store" where
  "group_async_turn_on a entry_id index panel_ids kw group_states so po =
     (let store' = store_update group_states (group_state_key entry_id index) (apply_turn_on kw)
      in (async_set_group_color a entry_id index panel_ids store' so po, store'))"

definition group_async_turn_off ::
  "api \<Rightarrow> string \<Rightarrow> int \<Rightarrow> int list \<Rightarrow> state_store
     \<Rightarrow> send_outcome \<Rightarrow> put_outcome \<Rightarrow> io_event list \<times> state_store" where
  "group_async_turn_off a entry_id index panel_ids group_states so po =
     (let store' = store_update group_states (group_state_key entry_id index) apply_turn_off
      in (async_set_group_color a entry_id index panel_ids store' so po, store'))"

section \<open>The layout and its angles (\<^verbatim>\<open>get_all_segments\<close> in \<^verbatim>\<open>__init__.py\<close>)\<close>

text \<open>
  The angle computation uses \<^verbatim>\<open>math.atan2\<close>, whose binary64 result is not fixed by a
  standard. The functions of this section are the exact real-number operations that the
  float operations approximate, with \<^verbatim>\<open>round(x, 2)\<close> rounding the exact value half to even.
  The floats follow the exact values up to their rounding, so the two agree unless a
  rounding of the floats decides the result: a raw angle less than half a unit in the last
  place below 360 becomes 360.0 in the addition and then 0.0, where the exact value stays
  below 360 (a segment at (\<open>10^17\<close>, -1) around the centroid (0, 0), say). The layout
  examined below is far from such points.
\<close>

definition SHAPE_TYPE_LINE_SEGMENT :: int where
  "SHAPE_TYPE_LINE_SEGMENT = 18"

text \<open>\<^verbatim>\<open>math.atan2(y, x)\<close>: the angle of the point \<open>(x, y)\<close>, in \<open>(-pi, pi]\<close>.\<close>

definition atan2 :: "real \<Rightarrow> real \<Rightarrow> real" where
  "atan2 y x =
     (if 0 < x then arctan (y / x)
      else if x < 0 then (if 0 \<le> y then arctan (y / x) + pi else arctan (y / x) - pi)
      else if 0 < y then pi / 2
      else if y < 0 then - (pi / 2)
      else 0)"

text \<open>\<^verbatim>\<open>math.degrees(r)\<close>.\<close>

definition degrees :: "real \<Rightarrow> real" where
  "degrees r = r * 180 / pi"

text \<open>\<^verbatim>\<open>x % m\<close> on floats, for a positive \<open>m\<close>: the result is in \<open>[0, m)\<close>.\<close>

definition py_mod :: "real \<Rightarrow> real \<Rightarrow> real" where
  "py_mod x m = x - m * of_int \<lfloor>x / m\<rfloor>"

text \<open>\<^verbatim>\<open>round(x, 2)\<close>.\<close>

definition round2 :: "real \<Rightarrow> real" where
  "round2 x = of_int (round_half_even (x * 100)) / 100"

text \<open>
  \<^verbatim>\<open>get_all_segments\<close>, from the \<^verbatim>\<open>positionData\<close> of the layout: the line segments, each
  with its angle around the centroid; no centroid is computed for an empty list.
\<close>

definition segment_angle :: "real \<Rightarrow> real \<Rightarrow> segment \<Rightarrow> real" where
  "segment_angle cx cy p =
     (let raw_angle = py_mod (degrees (atan2 (of_int (seg_y p) - cy) (of_int (seg_x p) - cx)) + 360) 360
      in round2 raw_angle)"

definition get_all_segments :: "segment list \<Rightarrow> segment list" where
  "get_all_segments panels =
     (let segments = filter (\<lambda>panel. shapeType panel = SHAPE_TYPE_LINE_SEGMENT) panels
      in if segments \<noteq> [] then
           (let cx = of_int (sum_list (map seg_x segments)) / of_nat (length segments);
                cy = of_int (sum_list (map seg_y segments)) / of_nat (length segments)
            in map (\<lambda>p. p\<lparr>angle_deg := Some (segment_angle cx cy p)\<rparr>) segments)
         else segments)"

section \<open>Concrete inputs\<close>

text \<open>A client whose streaming channel was negotiated.\<close>

definition api_example :: api where
  "api_example = \<lparr>host = ''192.168.1.50'', token = ''tok'', udp_socket = Some (),
     udp_port = Some 60222, external_control_enabled = True\<rparr>"

text \<open>Segments of a layout: with a given angle, and before the angles are computed.\<close>

definition seg_at :: "int \<Rightarrow> real \<Rightarrow> segment" where
  "seg_at pid a = \<lparr>panelId = pid, seg_x = 0, seg_y = 0, seg_o = 0, shapeType = 18,
     angle_deg = Some a\<rparr>"



definition group_store_example :: state_store where
  "group_store_example =
     [group_state_key ''e1'' 0 \<mapsto> \<lparr>is_on = True, brightness = 255, rgb_color = (0, 0, 255)\<rparr>]"

text \<open>A layout of two line segments, almost on the horizontal axis through their centroid.\<close>

definition layout_example :: "segment list" where
  "layout_example =
     [\<lparr>panelId = 1, seg_x = 20000, seg_y = - 1, seg_o = 0, shapeType = 18, angle_deg = None\<rparr>,
      \<lparr>panelId = 2, seg_x = - 20000, seg_y = 1, seg_o = 0, shapeType = 18, angle_deg = None\<rparr>]"

section \<open>Formatting and transport lemmas\<close>

lemma str_int_examples:
  "str_int 1234 = ''1234'' \<and> str_int (- 5) = ''-5'' \<and> str_int 0 = ''0''"
  by (simp add: str_int_def str_nat.simps digit_char_def)

lemma set_multiple_panels_eq:
  "set_multiple_panels a pcs t po =
     ([HttpPut (base_url a @ ''/effects'') (custom_effect (control_plane_text pcs t)) (1 / 2)],
      Inr ())"
  by (simp add: set_multiple_panels_def control_plane_text_def Let_def
      split: sum.split py_error.split)

lemma uint_byte: "0 \<le> v \<Longrightarrow> v < 256 \<Longrightarrow> uint (word_of_int v :: byte) = v"
  by (simp add: uint_word_of_int)

lemma u16_be_pack:
  "0 \<le> v \<Longrightarrow> v < 65536 \<Longrightarrow> u16_be (word_of_int (v div 256)) (word_of_int (v mod 256)) = v"
  unfolding u16_be_def by (simp add: uint_word_of_int)

lemma pack_panels_bytes:
  "list_all (\<lambda>(pid, (r, g, b)). 0 \<le> pid \<and> pid < 65536 \<and> 0 \<le> r \<and> r < 256
        \<and> 0 \<le> g \<and> g < 256 \<and> 0 \<le> b \<and> b < 256) pcs \<Longrightarrow> 0 \<le> t \<Longrightarrow> t < 65536 \<Longrightarrow>
   pack_panels pcs t acc = Inr (acc @ concat (map (frame_bytes t) pcs))"
proof (induction pcs arbitrary: acc)
  case Nil
  then show ?case by simp
next
  case (Cons p pcs)
  obtain pid r g b where p: "p = (pid, (r, g, b))" by (metis prod_cases4)
  from Cons.prems have "pack_panel pid r g b 0 t = Inr (frame_bytes t p)"
    by (simp add: p pack_panel_def pack_H_def pack_B_def bind_err_def frame_bytes_def)
  with Cons show ?case by (simp add: p bind_err_def)
qed

lemma decode_panels_bytes:
  "list_all (\<lambda>(pid, (r, g, b)). 0 \<le> pid \<and> pid < 65536 \<and> 0 \<le> r \<and> r < 256
        \<and> 0 \<le> g \<and> g < 256 \<and> 0 \<le> b \<and> b < 256) pcs \<Longrightarrow> 0 \<le> t \<Longrightarrow> t < 65536 \<Longrightarrow>
   decode_panels (length pcs) (concat (map (frame_bytes t) pcs))
     = Some (map (\<lambda>(pid, (r, g, b)). (pid, r, g, b, 0, t)) pcs)"
proof (induction pcs)
  case Nil
  then show ?case by simp
next
  case (Cons p pcs)
  obtain pid r g b where p: "p = (pid, (r, g, b))" by (metis prod_cases4)
  from Cons show ?case
    by (simp add: p frame_bytes_def u16_be_pack uint_byte)
qed

lemma build_packet_bytes:
  assumes "wire_ok pcs"
  shows "build_packet pcs smooth =
     Inr ([word_of_int (int (length pcs) div 256), word_of_int (int (length pcs) mod 256)]
          @ concat (map (frame_bytes (if smooth then 2 else 0)) pcs))"
  using assms pack_panels_bytes [of pcs "if smooth then 2 else 0"]
  by (simp add: build_packet_def wire_ok_def pack_H_def bind_err_def Let_def)

lemma length_frame_bytes: "length (concat (map (frame_bytes t) pcs)) = 8 * length pcs"
  by (induction pcs) (auto simp: frame_bytes_def)

text \<open>
  A mapping that does not fit the datagram makes \<^verbatim>\<open>struct.pack\<close> raise inside the
  \<^verbatim>\<open>try\<close>: nothing is handed to the socket and the reliable path is used.
\<close>

lemma streaming_send_unpackable:
  "build_packet pcs smooth = Inl e \<Longrightarrow>
   set_multiple_panels_udp a pcs smooth so po = set_multiple_panels a pcs 0 po"
  by (simp add: set_multiple_panels_udp_def)

text \<open>
  A mapping that does not fit the datagram cannot be packed: \<^verbatim>\<open>struct.pack\<close> raises at the
  count or at the first entry that is out of range.
\<close>

lemma pack_panel_unpackable:
  "\<not> (0 \<le> pid \<and> pid < 65536 \<and> 0 \<le> r \<and> r < 256 \<and> 0 \<le> g \<and> g < 256 \<and> 0 \<le> b \<and> b < 256) \<Longrightarrow>
   pack_panel pid r g b 0 t = Inl StructError"
  by (auto simp: pack_panel_def pack_H_def pack_B_def bind_err_def)

lemma pack_panels_unpackable:
  "\<not> list_all (\<lambda>(pid, (r, g, b)). 0 \<le> pid \<and> pid < 65536 \<and> 0 \<le> r \<and> r < 256
        \<and> 0 \<le> g \<and> g < 256 \<and> 0 \<le> b \<and> b < 256) pcs \<Longrightarrow> 0 \<le> t \<Longrightarrow> t < 65536 \<Longrightarrow>
   pack_panels pcs t acc = Inl StructError"
proof (induction pcs arbitrary: acc)
  case Nil
  then show ?case by simp
next
  case (Cons p pcs)
  obtain pid r g b where p: "p = (pid, (r, g, b))" by (metis prod_cases4)
  show ?case
  proof (cases "0 \<le> pid \<and> pid < 65536 \<and> 0 \<le> r \<and> r < 256 \<and> 0 \<le> g \<and> g < 256 \<and> 0 \<le> b \<and> b < 256")
    case True
    with Cons.prems have "pack_panel pid r g b 0 t = Inr (frame_bytes t p)"
      by (simp add: p pack_panel_def pack_H_def pack_B_def bind_err_def frame_bytes_def)
    moreover from True Cons.prems(1) have "pack_panels pcs t (acc @ frame_bytes t p) = Inl StructError"
      by (intro Cons.IH Cons.prems) (simp add: p)
    ultimately show ?thesis by (simp add: p bind_err_def)
  next
    case False
    then have "pack_panel pid r g b 0 t = Inl StructError" by (rule pack_panel_unpackable)
    then show ?thesis by (simp add: p bind_err_def)
  qed
qed

lemma build_packet_unpackable:
  assumes "\<not> wire_ok pcs"
  shows "build_packet pcs smooth = Inl StructError"
proof (cases "length pcs < 65536")
  case False
  then show ?thesis by (simp add: build_packet_def pack_H_def bind_err_def Let_def)
next
  case True
  with assms have "pack_panels pcs (if smooth then 2 else 0) acc = Inl StructError" for acc
    by (intro pack_panels_unpackable) (simp_all add: wire_ok_def)
  with True show ?thesis by (simp add: build_packet_def pack_H_def bind_err_def Let_def)
qed

section \<open>The streaming datagram\<close>

text \<open>
  C5. For a mapping with fewer than \<open>2^16\<close> entries, panel ids below \<open>2^16\<close> and channels
  in 0..255, the datagram is built without error; it is the big-endian 2-byte panel count
  followed per panel by the 2-byte id, one byte each of R, G, B, a reserved byte 0 and the
  2-byte transition; it has \<open>2 + 8 N\<close> bytes; and decoding it gives back the count, the
  ids and the RGB values, with reserved byte 0.
\<close>

theorem streaming_frame_roundtrip:
  assumes "wire_ok pcs"
  shows "\<exists>packet. build_packet pcs smooth = Inr packet
     \<and> packet = [word_of_int (int (length pcs) div 256), word_of_int (int (length pcs) mod 256)]
          @ concat (map (frame_bytes (if smooth then 2 else 0)) pcs)
     \<and> length packet = 2 + 8 * length pcs
     \<and> decode_frame packet =
         Some (int (length pcs),
               map (\<lambda>(pid, (r, g, b)). (pid, r, g, b, 0, if smooth then 2 else 0)) pcs)"
proof -
  let ?t = "if smooth then 2 else 0 :: int"
  let ?n = "int (length pcs)"
  let ?packet = "[word_of_int (?n div 256), word_of_int (?n mod 256)]
                   @ concat (map (frame_bytes ?t) pcs)"
  from assms have n: "0 \<le> ?n" "?n < 65536" by (simp_all add: wire_ok_def)
  have cnt: "u16_be (word_of_int (?n div 256)) (word_of_int (?n mod 256)) = ?n"
    using n by (rule u16_be_pack)
  have dec: "decode_panels (length pcs) (concat (map (frame_bytes ?t) pcs))
      = Some (map (\<lambda>(pid, (r, g, b)). (pid, r, g, b, 0, ?t)) pcs)"
    using assms by (intro decode_panels_bytes) (simp_all add: wire_ok_def)
  have "decode_frame ?packet = Some (?n, map (\<lambda>(pid, (r, g, b)). (pid, r, g, b, 0, ?t)) pcs)"
    unfolding decode_frame_def by (simp add: cnt dec)
  moreover have "length ?packet = 2 + 8 * length pcs"
    by (simp add: length_frame_bytes)
  ultimately show ?thesis
    using build_packet_bytes [OF assms, of smooth] by blast
qed

theorem streaming_frame_roundtrip_witness:
  "wire_ok [(7, (255, 128, 0)), (300, (1, 2, 3))]
   \<and> build_packet [(7, (255, 128, 0)), (300, (1, 2, 3))] True
       = Inr [0, 2, 0, 7, 255, 128, 0, 0, 0, 2, 1, 44, 1, 2, 3, 0, 0, 2]
   \<and> decode_frame [0, 2, 0, 7, 255, 128, 0, 0, 0, 2, 1, 44, 1, 2, 3, 0, 0, 2]
       = Some (2, [(7, 255, 128, 0, 0, 2), (300, 1, 2, 3, 0, 2)])"
proof -
  have ok: "wire_ok [(7, (255, 128, 0)), (300, (1, 2, 3))]"
    by (simp add: wire_ok_def)
  show ?thesis
    using ok streaming_frame_roundtrip [OF ok, of True]
    by (simp add: frame_bytes_def)
qed

section \<open>The streaming send and its fallback\<close>

text \<open>
  C6 (as amended). When external control was not enabled or there is no socket, the
  streaming send is the reliable send of the same mapping with transition 0: one
  \<^verbatim>\<open>PUT /effects\<close> whose animation text lists every requested panel. When the channel is
  enabled and the mapping fits the datagram (fewer than \<open>2^16\<close> entries, panel ids below
  \<open>2^16\<close>, channels in 0..255), exactly one datagram is handed to the socket, with
  transition 2 when \<open>smooth\<close> and 0 otherwise; when the send raises, the same mapping goes
  out once through the reliable path and nothing else follows. When the channel is enabled
  and the mapping does not fit the datagram, packing raises, no datagram is handed to the
  socket, and the mapping goes out once through the reliable path.
\<close>

theorem streaming_send_dispatch:
  "(\<not> external_control_enabled a \<or> udp_socket a = None \<longrightarrow>
      set_multiple_panels_udp a pcs smooth so po =
        ([HttpPut (base_url a @ ''/effects'') (custom_effect (control_plane_text pcs 0)) (1 / 2)],
         Inr ()))
   \<and> (external_control_enabled a \<and> udp_socket a \<noteq> None \<and> wire_ok pcs \<longrightarrow>
      (\<exists>packet. build_packet pcs smooth = Inr packet
         \<and> packet = [word_of_int (int (length pcs) div 256), word_of_int (int (length pcs) mod 256)]
             @ concat (map (frame_bytes (if smooth then 2 else 0)) pcs)
         \<and> set_multiple_panels_udp a pcs smooth Sent po =
             ([UdpSendto packet (host a) (udp_port a)], Inr ())
         \<and> (\<forall>e. set_multiple_panels_udp a pcs smooth (SendRaises e) po =
             ([UdpSendto packet (host a) (udp_port a),
               HttpPut (base_url a @ ''/effects'') (custom_effect (control_plane_text pcs 0))
                 (1 / 2)],
              Inr ()))))
   \<and> (external_control_enabled a \<and> udp_socket a \<noteq> None \<and> \<not> wire_ok pcs \<longrightarrow>
      build_packet pcs smooth = Inl StructError
      \<and> set_multiple_panels_udp a pcs smooth so po =
          ([HttpPut (base_url a @ ''/effects'') (custom_effect (control_plane_text pcs 0)) (1 / 2)],
           Inr ()))"
proof (intro conjI impI)
  assume "\<not> external_control_enabled a \<or> udp_socket a = None"
  then show "set_multiple_panels_udp a pcs smooth so po =
        ([HttpPut (base_url a @ ''/effects'') (custom_effect (control_plane_text pcs 0)) (1 / 2)],
         Inr ())"
    by (auto simp: set_multiple_panels_udp_def set_multiple_panels_eq)
next
  assume h: "external_control_enabled a \<and> udp_socket a \<noteq> None \<and> wire_ok pcs"
  let ?packet = "[word_of_int (int (length pcs) div 256), word_of_int (int (length pcs) mod 256)]
             @ concat (map (frame_bytes (if smooth then 2 else 0)) pcs)"
  from h have p: "build_packet pcs smooth = Inr ?packet"
    by (simp add: build_packet_bytes)
  show "\<exists>packet. build_packet pcs smooth = Inr packet
         \<and> packet = [word_of_int (int (length pcs) div 256), word_of_int (int (length pcs) mod 256)]
             @ concat (map (frame_bytes (if smooth then 2 else 0)) pcs)
         \<and> set_multiple_panels_udp a pcs smooth Sent po =
             ([UdpSendto packet (host a) (udp_port a)], Inr ())
         \<and> (\<forall>e. set_multiple_panels_udp a pcs smooth (SendRaises e) po =
             ([UdpSendto packet (host a) (udp_port a),
               HttpPut (base_url a @ ''/effects'') (custom_effect (control_plane_text pcs 0))
                 (1 / 2)],
              Inr ()))"
    using h p
    by (intro exI [of _ ?packet])
       (simp add: set_multiple_panels_udp_def set_multiple_panels_eq socket_sendto_def)
next
  assume h: "external_control_enabled a \<and> udp_socket a \<noteq> None \<and> \<not> wire_ok pcs"
  then show "build_packet pcs smooth = Inl StructError" by (simp add: build_packet_unpackable)
next
  assume h: "external_control_enabled a \<and> udp_socket a \<noteq> None \<and> \<not> wire_ok pcs"
  then have "build_packet pcs smooth = Inl StructError" by (simp add: build_packet_unpackable)
  then show "set_multiple_panels_udp a pcs smooth so po =
          ([HttpPut (base_url a @ ''/effects'') (custom_effect (control_plane_text pcs 0)) (1 / 2)],
           Inr ())"
    by (simp add: streaming_send_unpackable set_multiple_panels_eq)
qed

theorem streaming_send_dispatch_witness:
  "set_multiple_panels_udp api_example [(7, (255, 128, 0))] True Sent (Responds 204)
     = ([UdpSendto [0, 1, 0, 7, 255, 128, 0, 0, 0, 2] ''192.168.1.50'' (Some 60222)], Inr ())
   \<and> set_multiple_panels_udp api_example [(7, (255, 128, 0))] False (SendRaises OtherException)
        (Responds 204)
     = ([UdpSendto [0, 1, 0, 7, 255, 128, 0, 0, 0, 0] ''192.168.1.50'' (Some 60222),
         HttpPut ''http://192.168.1.50:16021/api/v1/tok/effects''
           (custom_effect ''1 7 1 255 128 0 0 0'') (1 / 2)], Inr ())
   \<and> set_multiple_panels_udp (api_example\<lparr>external_control_enabled := False\<rparr>)
        [(7, (255, 128, 0))] True Sent (Responds 204)
     = ([HttpPut ''http://192.168.1.50:16021/api/v1/tok/effects''
           (custom_effect ''1 7 1 255 128 0 0 0'') (1 / 2)], Inr ())
   \<and> set_multiple_panels_udp api_example [(65536, (255, 128, 0))] True Sent (Responds 204)
     = ([HttpPut ''http://192.168.1.50:16021/api/v1/tok/effects''
           (custom_effect ''1 65536 1 255 128 0 0 0'') (1 / 2)], Inr ())"
proof -
  have ok: "wire_ok [(7, (255, 128, 0))]" "\<not> wire_ok [(65536, (255, 128, 0))]"
    by (simp_all add: wire_ok_def)
  have cmd: "control_plane_text [(7, (255, 128, 0))] 0 = ''1 7 1 255 128 0 0 0''"
    "control_plane_text [(65536, (255, 128, 0))] 0 = ''1 65536 1 255 128 0 0 0''"
    by (simp_all add: control_plane_text_def anim_part_def str_int_def str_nat.simps digit_char_def)
  have url: "base_url api_example = ''http://192.168.1.50:16021/api/v1/tok''"
    "base_url (api_example\<lparr>external_control_enabled := False\<rparr>)
      = ''http://192.168.1.50:16021/api/v1/tok''"
    by (simp_all add: base_url_def api_example_def DEFAULT_PORT_def str_int_def str_nat.simps
        digit_char_def)
  have en: "external_control_enabled api_example \<and> udp_socket api_example \<noteq> None"
    by (simp add: api_example_def)
  have h: "host api_example = ''192.168.1.50'' \<and> udp_port api_example = Some 60222"
    by (simp add: api_example_def)
  show ?thesis
    using streaming_send_dispatch [of api_example "[(7, (255, 128, 0))]" True Sent "Responds 204"]
      streaming_send_dispatch [of api_example "[(7, (255, 128, 0))]" False Sent "Responds 204"]
      streaming_send_dispatch [of "api_example\<lparr>external_control_enabled := False\<rparr>"
         "[(7, (255, 128, 0))]" True Sent "Responds 204"]
      streaming_send_dispatch [of api_example "[(65536, (255, 128, 0))]" True Sent "Responds 204"]
      ok en
    by (auto simp add: cmd url h frame_bytes_def)
qed

text \<open>
  The claim as it was stated, for every mapping, fails: with the channel enabled, a mapping
  with the channel value 256 is not transmitted as a datagram; the only thing sent is the
  \<^verbatim>\<open>PUT /effects\<close> of the reliable path.
\<close>

theorem streaming_send_no_datagram:
  "external_control_enabled api_example \<and> udp_socket api_example \<noteq> None
   \<and> set_multiple_panels_udp api_example [(7, (256, 0, 0))] True Sent (Responds 204)
     = ([HttpPut ''http://192.168.1.50:16021/api/v1/tok/effects''
           (custom_effect ''1 7 1 256 0 0 0 0'') (1 / 2)], Inr ())"
proof -
  have "build_packet [(7, (256, 0, 0))] True = Inl StructError"
    by (simp add: build_packet_def pack_H_def pack_B_def pack_panel_def bind_err_def Let_def)
  moreover have "control_plane_text [(7, (256, 0, 0))] 0 = ''1 7 1 256 0 0 0 0''"
    by (simp add: control_plane_text_def anim_part_def str_int_def str_nat.simps digit_char_def)
  moreover have "base_url api_example = ''http://192.168.1.50:16021/api/v1/tok''"
    by (simp add: base_url_def api_example_def DEFAULT_PORT_def str_int_def str_nat.simps
        digit_char_def)
  moreover have "external_control_enabled api_example \<and> udp_socket api_example \<noteq> None"
    by (simp add: api_example_def)
  ultimately show ?thesis
    by (simp add: set_multiple_panels_udp_def set_multiple_panels_eq)
qed

section \<open>The reliable send never raises\<close>

text \<open>
  C7. For every panel-colour mapping, transition value and transport outcome,
  \<^verbatim>\<open>set_multiple_panels\<close> issues its one \<^verbatim>\<open>PUT /effects\<close> request and returns normally:
  a timeout and every other exception of the request are swallowed.
\<close>

theorem set_multiple_panels_returns_normally:
  "snd (set_multiple_panels a panel_colors transition_time oc) = Inr ()
   \<and> length (fst (set_multiple_panels a panel_colors transition_time oc)) = 1"
  by (simp add: set_multiple_panels_def Let_def split: sum.split py_error.split)

section \<open>Automatic grouping\<close>

lemma concat_group_loop: "0 < g \<Longrightarrow> concat (group_loop xs g i) = drop i xs"
proof (induction xs g i rule: group_loop.induct)
  case (1 xs g i)
  show ?case
  proof (cases "length xs \<le> i")
    case True
    then show ?thesis by (simp add: group_loop.simps)
  next
    case False
    with 1 have "concat (group_loop xs g (i + g)) = drop (i + g) xs" by simp
    moreover have "take g (drop i xs) @ drop (i + g) xs = drop i xs"
      by (metis append_take_drop_id drop_drop add.commute)
    ultimately show ?thesis using False 1(2)
      by (subst group_loop.simps) simp
  qed
qed

lemma length_group_loop: "0 < g \<Longrightarrow> length (group_loop xs g i) = (length xs - i + g - 1) div g"
proof (induction xs g i rule: group_loop.induct)
  case (1 xs g i)
  show ?case
  proof (cases "length xs \<le> i")
    case True
    with 1(2) show ?thesis by (simp add: group_loop.simps)
  next
    case False
    with 1 have ih: "length (group_loop xs g (i + g)) = (length xs - (i + g) + g - 1) div g" by simp
    show ?thesis
    proof (cases "length xs - i \<le> g")
      case True
      with False 1(2) have "(length xs - i + g - 1) div g = 1"
        by (intro div_nat_eqI) auto
      moreover from True have "(length xs - (i + g) + g - 1) div g = 0" using 1(2) by simp
      ultimately show ?thesis using False 1(2) ih by (subst group_loop.simps) simp
    next
      case gt: False
      define A where "A = length xs - (i + g) + g - 1"
      from gt have "length xs - i + g - 1 = A + g" by (simp add: A_def)
      moreover have "(A + g) div g = Suc (A div g)" using 1(2) by simp
      ultimately have "(length xs - i + g - 1) div g = Suc ((length xs - (i + g) + g - 1) div g)"
        by (simp add: A_def)
      then show ?thesis using False 1(2) ih by (subst group_loop.simps) simp
    qed
  qed
qed

lemma nth_group_loop:
  "0 < g \<Longrightarrow> j < length (group_loop xs g i) \<Longrightarrow>
   group_loop xs g i ! j = take g (drop (i + j * g) xs)"
proof (induction xs g i arbitrary: j rule: group_loop.induct)
  case (1 xs g i)
  from 1(3) have ne: "\<not> length xs \<le> i" using 1(2) by (auto simp: group_loop.simps)
  have unf: "group_loop xs g i = take g (drop i xs) # group_loop xs g (i + g)"
    using ne 1(2) by (subst group_loop.simps) simp
  show ?case
  proof (cases j)
    case 0
    then show ?thesis by (simp add: unf)
  next
    case (Suc j')
    with 1(3) unf have "j' < length (group_loop xs g (i + g))" by simp
    with 1(1) [of j'] ne 1(2) have "group_loop xs g (i + g) ! j' = take g (drop (i + g + j' * g) xs)"
      by simp
    then show ?thesis by (simp add: unf Suc add.assoc)
  qed
qed

lemma group_loop_full:
  assumes "0 < g" "Suc j < length (group_loop xs g 0)"
  shows "length (group_loop xs g 0 ! j) = g"
proof -
  from assms have "Suc (Suc j) \<le> (length xs + g - 1) div g" by (simp add: length_group_loop)
  then have "Suc (Suc j) * g \<le> length xs + g - 1"
    using assms(1) by (simp add: less_eq_div_iff_mult_less_eq)
  then have "j * g + g \<le> length xs" using assms(1) by simp
  moreover have "group_loop xs g 0 ! j = take g (drop (j * g) xs)"
    using nth_group_loop [of g j xs 0] assms by simp
  ultimately show ?thesis by simp
qed

lemma group_loop_nonempty:
  assumes "0 < g" "grp \<in> set (group_loop xs g i)"
  shows "grp \<noteq> [] \<and> length grp \<le> g"
proof -
  from assms(2) obtain j where j: "j < length (group_loop xs g i)" "grp = group_loop xs g i ! j"
    by (auto simp: in_set_conv_nth)
  then have g: "grp = take g (drop (i + j * g) xs)" using nth_group_loop assms(1) by metis
  from j(1) have "Suc j \<le> (length xs - i + g - 1) div g" by (simp add: length_group_loop assms(1))
  then have "Suc j * g \<le> length xs - i + g - 1"
    using assms(1) by (simp add: less_eq_div_iff_mult_less_eq)
  then have "i + j * g < length xs" using assms(1) by simp
  with g assms(1) show ?thesis by simp
qed

text \<open>
  C3. For every list of N segments and every group size G \<open>\<ge>\<close> 1, automatic grouping
  returns \<open>ceil(N/G)\<close> groups, every group but the last has exactly G members, no group
  is empty or longer than G, and the groups concatenated are the input sorted by ascending
  angle: sorted, a permutation of the input, and equal angles keep their input order.
\<close>

theorem create_groups_by_position_chunks:
  assumes "1 \<le> group_size"
  shows "\<exists>groups. create_groups_by_position segments group_size = Inr groups
    \<and> int (length groups) = (int (length segments) + group_size - 1) div group_size
    \<and> (\<forall>j. Suc j < length groups \<longrightarrow> int (length (groups ! j)) = group_size)
    \<and> (\<forall>grp \<in> set groups. grp \<noteq> [] \<and> int (length grp) \<le> group_size)
    \<and> concat groups = sort_key angle_key segments
    \<and> sorted (map angle_key (concat groups))
    \<and> mset (concat groups) = mset segments
    \<and> (\<forall>k. filter (\<lambda>s. angle_key s = k) (concat groups)
            = filter (\<lambda>s. angle_key s = k) segments)"
proof -
  define g where "g = nat group_size"
  define xs where "xs = sort_key angle_key segments"
  have g: "0 < g" "int g = group_size" using assms by (simp_all add: g_def)
  have res: "create_groups_by_position segments group_size = Inr (group_loop xs g 0)"
    using assms by (simp add: create_groups_by_position_def g_def xs_def)
  have len: "length xs = length segments" by (simp add: xs_def)
  have "int (length (group_loop xs g 0)) = int ((length segments + g - 1) div g)"
    by (simp add: length_group_loop g(1) len)
  also have "\<dots> = (int (length segments) + int g - 1) div int g"
    using g(1) by (simp add: zdiv_int)
  finally have n: "int (length (group_loop xs g 0))
      = (int (length segments) + group_size - 1) div group_size"
    by (simp add: g(2))
  have full: "\<forall>j. Suc j < length (group_loop xs g 0)
      \<longrightarrow> int (length (group_loop xs g 0 ! j)) = group_size"
    using group_loop_full [OF g(1)] g(2) by auto
  have part: "\<forall>grp \<in> set (group_loop xs g 0). grp \<noteq> [] \<and> int (length grp) \<le> group_size"
    using group_loop_nonempty [OF g(1)] g(2) by fastforce
  have cc: "concat (group_loop xs g 0) = sort_key angle_key segments"
    by (simp add: concat_group_loop g(1) xs_def)
  have "sorted (map angle_key (sort_key angle_key segments))"
    by (rule sorted_sort_key)
  moreover have "mset (sort_key angle_key segments) = mset segments"
    by simp
  moreover have "\<forall>k. filter (\<lambda>s. angle_key s = k) (sort_key angle_key segments)
            = filter (\<lambda>s. angle_key s = k) segments"
    by (simp add: sort_key_stable)
  ultimately show ?thesis
    using res n full part cc by (intro exI [of _ "group_loop xs g 0"]) simp
qed

theorem create_groups_by_position_chunks_witness:
  "\<exists>groups. create_groups_by_position
       [seg_at 1 50, seg_at 2 10, seg_at 3 50, seg_at 4 0] 3 = Inr groups
     \<and> int (length groups) = 2
     \<and> concat groups = [seg_at 4 0, seg_at 2 10, seg_at 1 50, seg_at 3 50]"
proof -
  have k: "angle_key (seg_at p a) = a" for p a
    by (simp add: angle_key_def seg_at_def)
  have "sort_key angle_key [seg_at 1 50, seg_at 2 10, seg_at 3 50, seg_at 4 0]
      = [seg_at 4 0, seg_at 2 10, seg_at 1 50, seg_at 3 50]"
    by (simp add: k)
  then show ?thesis
    using create_groups_by_position_chunks [of 3 "[seg_at 1 50, seg_at 2 10, seg_at 3 50, seg_at 4 0]"]
    by auto
qed

section \<open>Manual grouping\<close>

text \<open>
  For index lists without negative numbers the loop does what is intended: indices at or
  beyond the length are dropped, empty groups are dropped, nothing raises.
\<close>

lemma select_segments_nonneg:
  "list_all (\<lambda>i. 0 \<le> i) group_indices \<Longrightarrow>
   select_segments segments group_indices =
     Inr (map (\<lambda>i. segments ! nat i) (filter (\<lambda>i. i < int (length segments)) group_indices))"
  by (induction group_indices) (auto simp: bind_err_def py_getitem_def)

lemma manual_groups_loop_nonneg:
  "list_all (list_all (\<lambda>i. 0 \<le> i)) manual_groups \<Longrightarrow>
   manual_groups_loop segments manual_groups groups =
     Inr (groups @ filter (\<lambda>grp. grp \<noteq> [])
        (map (\<lambda>gi. map (\<lambda>i. segments ! nat i) (filter (\<lambda>i. i < int (length segments)) gi))
           manual_groups))"
  by (induction manual_groups arbitrary: groups)
     (auto simp: bind_err_def select_segments_nonneg)

text \<open>
  C4. The claim is that manual grouping drops every out-of-range index, negative ones
  included, and never raises. The guard only tests \<^verbatim>\<open>i < len(segments)\<close>: on a layout of
  two segments the index \<open>-3\<close> passes it and \<^verbatim>\<open>segments[-3]\<close> raises \<^verbatim>\<open>IndexError\<close>, and
  the index \<open>-1\<close> is not dropped but selects the last segment.
\<close>

theorem manual_groups_negative_index:
  "setup_groups [seg_at 1 10, seg_at 2 20] (Some [[0, - 3]]) = Inl IndexError
   \<and> setup_groups [seg_at 1 10, seg_at 2 20] (Some [[- 1], [5]]) = Inr [[seg_at 2 20]]"
  by (simp add: setup_groups_def bind_err_def py_getitem_def)

section \<open>Rounding to binary64: order, exact values, error\<close>

lemma round_half_even_of_int: "round_half_even (of_int m) = m"
  by (simp add: round_half_even_def)

lemma round_half_even_floor: "\<lfloor>q\<rfloor> \<le> round_half_even q \<and> round_half_even q \<le> \<lfloor>q\<rfloor> + 1"
  by (simp add: round_half_even_def Let_def)

lemma round_half_even_mono:
  assumes "q \<le> q'"
  shows "round_half_even q \<le> round_half_even q'"
proof (cases "\<lfloor>q\<rfloor> = \<lfloor>q'\<rfloor>")
  case True
  then have "q - of_int \<lfloor>q\<rfloor> \<le> q' - of_int \<lfloor>q'\<rfloor>" using assms by simp
  then show ?thesis
    using True by (auto simp: round_half_even_def Let_def)
next
  case False
  with assms have "\<lfloor>q\<rfloor> < \<lfloor>q'\<rfloor>" using floor_mono [OF assms] by linarith
  then show ?thesis
    using round_half_even_floor [of q] round_half_even_floor [of q'] by linarith
qed

lemma round_half_even_ge: "of_int m \<le> q \<Longrightarrow> m \<le> round_half_even q"
  using round_half_even_mono [of "of_int m" q] by (simp add: round_half_even_of_int)

lemma round_half_even_le: "q \<le> of_int m \<Longrightarrow> round_half_even q \<le> m"
  using round_half_even_mono [of q "of_int m"] by (simp add: round_half_even_of_int)

lemma round_half_even_err: "\<bar>of_int (round_half_even q) - q\<bar> \<le> 1 / 2"
proof -
  have "of_int \<lfloor>q\<rfloor> \<le> q" "q < of_int \<lfloor>q\<rfloor> + 1" by linarith+
  then show ?thesis
    by (auto simp: round_half_even_def Let_def abs_le_iff)
qed

lemma binade_bounds:
  assumes "q \<noteq> 0"
  shows "2 powi binade q \<le> \<bar>q\<bar> \<and> \<bar>q\<bar> < 2 powi (binade q + 1)"
proof -
  obtain n d where nd: "quotient_of \<bar>q\<bar> = (n, d)" by (cases "quotient_of \<bar>q\<bar>")
  then have d: "0 < d" and q: "\<bar>q\<bar> = of_int n / of_int d"
    by (auto simp: quotient_of_denom_pos quotient_of_div)
  from assms have "0 < \<bar>q\<bar>" by simp
  with q d have n: "0 < n" by (simp add: zero_less_divide_iff)
  define a where "a = bitlen n"
  define b where "b = bitlen d"
  from bitlen_bounds [OF n] have na: "2 ^ nat (a - 1) \<le> n" "n < 2 ^ nat a" by (simp_all add: a_def)
  from bitlen_bounds [OF d] have db: "2 ^ nat (b - 1) \<le> d" "d < 2 ^ nat b" by (simp_all add: b_def)
  have a1: "1 \<le> a" using n by (auto simp: a_def bitlen_alt_def)
  have b1: "1 \<le> b" using d by (auto simp: b_def bitlen_alt_def)
  have pa: "(2::rat) powi a = 2 ^ nat a" "(2::rat) powi (a - 1) = 2 ^ nat (a - 1)"
    using a1 by (simp_all add: power_int_nonneg_exp)
  have pb: "(2::rat) powi b = 2 ^ nat b" "(2::rat) powi (b - 1) = 2 ^ nat (b - 1)"
    using b1 by (simp_all add: power_int_nonneg_exp)
  have nr: "(2::rat) powi (a - 1) \<le> of_int n" "of_int n < (2::rat) powi a"
    unfolding pa using na by (metis of_int_le_iff of_int_numeral of_int_power, metis of_int_less_iff of_int_numeral of_int_power)
  have dr: "(2::rat) powi (b - 1) \<le> of_int d" "of_int d < (2::rat) powi b"
    unfolding pb using db by (metis of_int_le_iff of_int_numeral of_int_power, metis of_int_less_iff of_int_numeral of_int_power)
  have dpos: "(0::rat) < of_int d" using d by simp
  have npos: "(0::rat) < of_int n" using n by simp
  have up: "\<bar>q\<bar> < 2 powi (a - b + 1)"
  proof -
    have "of_int n / of_int d < (2::rat) powi a / of_int d"
      using nr(2) dpos by (simp add: divide_strict_right_mono)
    also have "\<dots> \<le> 2 powi a / 2 powi (b - 1)"
      using dr(1) dpos by (intro divide_left_mono mult_pos_pos) simp_all
    also have "\<dots> = 2 powi (a - (b - 1))" by (simp add: power_int_diff)
    finally show ?thesis by (simp add: q algebra_simps)
  qed
  have lo: "2 powi (a - b - 1) < \<bar>q\<bar>"
  proof -
    have "(2::rat) powi (a - b - 1) = 2 powi ((a - 1) - b)" by (simp add: algebra_simps)
    also have "\<dots> = 2 powi (a - 1) / 2 powi b" by (simp add: power_int_diff)
    also have "\<dots> < 2 powi (a - 1) / of_int d"
      using dr(2) dpos by (intro divide_strict_left_mono mult_pos_pos) simp_all
    also have "\<dots> \<le> of_int n / of_int d"
      using nr(1) dpos by (simp add: divide_right_mono)
    finally show ?thesis by (simp add: q)
  qed
  show ?thesis
  proof (cases "2 powi (a - b) \<le> \<bar>q\<bar>")
    case True
    then have "binade q = a - b" by (simp add: binade_def nd a_def b_def)
    with True up show ?thesis by simp
  next
    case False
    then have "binade q = a - b - 1" by (simp add: binade_def nd a_def b_def)
    with False lo show ?thesis by simp
  qed
qed

lemma binade_unique:
  assumes "2 powi e \<le> \<bar>q\<bar>" "\<bar>q\<bar> < 2 powi (e + 1)"
  shows "binade q = e"
proof -
  have "0 < (2::rat) powi e" by simp
  with assms(1) have "0 < \<bar>q\<bar>" by linarith
  then have q: "q \<noteq> 0" by simp
  note b = binade_bounds [OF q]
  have "(2::rat) powi e < 2 powi (binade q + 1)" using assms(1) b by linarith
  then have "e < binade q + 1"
    by (metis not_le power_int_increasing one_le_numeral)
  moreover have "(2::rat) powi binade q < 2 powi (e + 1)" using assms(2) b by linarith
  then have "binade q < e + 1"
    by (metis not_le power_int_increasing one_le_numeral)
  ultimately show ?thesis by simp
qed

lemma binade_less: "q \<noteq> 0 \<Longrightarrow> \<bar>q\<bar> < 2 powi n \<Longrightarrow> binade q < n"
  using binade_bounds [of q]
  by (metis not_le power_int_increasing one_le_numeral le_less_trans)

lemma binade_mono:
  assumes "0 < q" "q \<le> q'"
  shows "binade q \<le> binade q'"
proof -
  have "2 powi binade q \<le> q" using binade_bounds [of q] assms by simp
  moreover have "q' < 2 powi (binade q' + 1)" using binade_bounds [of q'] assms by simp
  ultimately have "(2::rat) powi binade q < 2 powi (binade q' + 1)" using assms by linarith
  then have "binade q < binade q' + 1"
    by (metis not_le power_int_increasing one_le_numeral)
  then show ?thesis by simp
qed

lemma scaled_repr:
  assumes "l \<le> j"
  shows "\<exists>M. of_int m * (2::rat) powi j = of_int M * 2 powi l"
proof -
  have "(2::rat) powi j = 2 powi (j - l) * 2 powi l"
    by (simp flip: power_int_add)
  also have "(2::rat) powi (j - l) = of_int (2 ^ nat (j - l))"
    using assms by (simp add: power_int_nonneg_exp)
  finally have "of_int m * (2::rat) powi j = of_int (m * 2 ^ nat (j - l)) * 2 powi l"
    by simp
  then show ?thesis by blast
qed

lemma double_round_pos:
  "q \<noteq> 0 \<Longrightarrow> double_round q = of_int (round_half_even (q / 2 powi ulp_exp q)) * 2 powi ulp_exp q"
  by (simp add: double_round_def Let_def)

lemma double_round_ge:
  assumes "q \<noteq> 0" "of_int m * 2 powi j \<le> q" "ulp_exp q \<le> j"
  shows "of_int m * 2 powi j \<le> double_round q"
proof -
  define u :: rat where "u = 2 powi ulp_exp q"
  have u: "0 < u" by (simp add: u_def)
  obtain M where M: "of_int m * (2::rat) powi j = of_int M * u"
    using scaled_repr [OF assms(3)] u_def by blast
  with assms(2) u have "of_int M \<le> q / u" by (simp add: pos_le_divide_eq)
  then have "M \<le> round_half_even (q / u)" by (rule round_half_even_ge)
  then have "of_int M * u \<le> of_int (round_half_even (q / u)) * u"
    using u by simp
  then show ?thesis by (simp add: double_round_pos assms(1) M u_def)
qed

lemma double_round_le:
  assumes "q \<noteq> 0" "q \<le> of_int m * 2 powi j" "ulp_exp q \<le> j"
  shows "double_round q \<le> of_int m * 2 powi j"
proof -
  define u :: rat where "u = 2 powi ulp_exp q"
  have u: "0 < u" by (simp add: u_def)
  obtain M where M: "of_int m * (2::rat) powi j = of_int M * u"
    using scaled_repr [OF assms(3)] u_def by blast
  with assms(2) u have "q / u \<le> of_int M" by (simp add: pos_divide_le_eq)
  then have "round_half_even (q / u) \<le> M" by (rule round_half_even_le)
  then have "of_int (round_half_even (q / u)) * u \<le> of_int M * u"
    using u by simp
  then show ?thesis by (simp add: double_round_pos assms(1) M u_def)
qed

lemma double_round_err:
  assumes "q \<noteq> 0"
  shows "\<bar>double_round q - q\<bar> \<le> 2 powi ulp_exp q / 2"
proof -
  define u :: rat where "u = 2 powi ulp_exp q"
  have u: "0 < u" by (simp add: u_def)
  have "double_round q - q = (of_int (round_half_even (q / u)) - q / u) * u"
    using u by (simp add: double_round_pos assms u_def algebra_simps)
  then have "\<bar>double_round q - q\<bar> = \<bar>of_int (round_half_even (q / u)) - q / u\<bar> * u"
    using u by (simp add: abs_mult)
  also have "\<dots> \<le> (1 / 2) * u"
    using u round_half_even_err [of "q / u"] by (intro mult_right_mono) simp_all
  finally show ?thesis by (simp add: u_def)
qed

lemma double_round_nonneg: "0 \<le> q \<Longrightarrow> 0 \<le> double_round q"
proof (cases "q = 0")
  case True
  then show ?thesis by (simp add: double_round_def)
next
  case False
  assume "0 \<le> q"
  then have "of_int 0 * 2 powi ulp_exp q \<le> q" by simp
  from double_round_ge [OF False this] show ?thesis by simp
qed

lemma double_round_mono:
  assumes "0 \<le> q" "q \<le> q'"
  shows "double_round q \<le> double_round q'"
proof (cases "q = 0")
  case True
  then show ?thesis using double_round_nonneg [of q'] assms by (simp add: double_round_def)
next
  case False
  with assms have q: "0 < q" "0 < q'" "q \<noteq> 0" "q' \<noteq> 0" by auto
  have be: "binade q \<le> binade q'" using binade_mono q(1) assms(2) by blast
  show ?thesis
  proof (cases "ulp_exp q = ulp_exp q'")
    case True
    define u :: rat where "u = 2 powi ulp_exp q"
    have u: "0 < u" by (simp add: u_def)
    have "q / u \<le> q' / u" using assms(2) u by (simp add: divide_right_mono)
    then have "round_half_even (q / u) \<le> round_half_even (q' / u)"
      by (rule round_half_even_mono)
    then have "of_int (round_half_even (q / u)) * u \<le> of_int (round_half_even (q' / u)) * u"
      using u by simp
    then show ?thesis using True by (simp add: double_round_pos q u_def)
  next
    case False
    with be have lt: "ulp_exp q < ulp_exp q'" by (auto simp: ulp_exp_def)
    then have e': "ulp_exp q' = binade q' - 52" by (auto simp: ulp_exp_def)
    have "q < 2 powi (binade q + 1)" using binade_bounds [OF q(3)] q(1) by simp
    also have "\<dots> \<le> 2 powi (ulp_exp q + 53)"
      by (intro power_int_increasing) (auto simp: ulp_exp_def)
    finally have "q \<le> of_int 1 * 2 powi (ulp_exp q + 53)" by simp
    then have a: "double_round q \<le> of_int 1 * 2 powi (ulp_exp q + 53)"
      by (intro double_round_le q) simp_all
    have "of_int 1 * 2 powi binade q' \<le> q'" using binade_bounds [OF q(4)] q(2) by simp
    then have b: "of_int 1 * 2 powi binade q' \<le> double_round q'"
      by (intro double_round_ge q) (simp_all add: e')
    have "(2::rat) powi (ulp_exp q + 53) \<le> 2 powi binade q'"
      using lt e' by (intro power_int_increasing) auto
    with a b show ?thesis by simp
  qed
qed

section \<open>Brightness scaling on 0..255\<close>

lemma ulp_exp_le:
  assumes "q \<noteq> 0" "\<bar>q\<bar> < 2 powi n" "- 1021 \<le> n"
  shows "ulp_exp q \<le> n - 53"
  using binade_less [OF assms(1,2)] assms(3) by (simp add: ulp_exp_def)

lemma double_max_ge: "256 \<le> double_max"
proof -
  have "(256::rat) \<le> (2 ^ 53 - 1) * 1" by simp
  also have "\<dots> \<le> (2 ^ 53 - 1) * 2 ^ 971"
    by (intro mult_left_mono) simp_all
  finally show ?thesis by (simp add: double_max_def)
qed

lemma double_round_small_int:
  assumes "0 \<le> c" "c \<le> 255"
  shows "double_round (of_int c) = of_int c"
proof (cases "c = 0")
  case True
  then show ?thesis by (simp add: double_round_def)
next
  case False
  then have nz: "(of_int c :: rat) \<noteq> 0" by simp
  have "\<bar>of_int c :: rat\<bar> < 2 powi 8" using assms by simp
  from ulp_exp_le [OF nz this] have u: "ulp_exp (of_int c) \<le> 0" by simp
  have "of_int c * 2 powi 0 \<le> double_round (of_int c)"
    by (rule double_round_ge [OF nz _ u]) simp
  moreover have "double_round (of_int c) \<le> of_int c * 2 powi 0"
    by (rule double_round_le [OF nz _ u]) simp
  ultimately show ?thesis by simp
qed

lemma factor_bounds:
  assumes "0 \<le> b" "b \<le> 255"
  shows "0 \<le> double_round (of_int b / 255)"
    and "double_round (of_int b / 255) \<le> 1"
    and "\<bar>double_round (of_int b / 255) - of_int b / 255\<bar> \<le> 1 / 2 ^ 53"
proof -
  let ?q = "of_int b / 255 :: rat"
  have q: "0 \<le> ?q" "?q \<le> 1" using assms by simp_all
  show "0 \<le> double_round ?q" using q(1) by (rule double_round_nonneg)
  show "double_round ?q \<le> 1"
  proof (cases "?q = 0")
    case True
    then show ?thesis by (simp add: double_round_def)
  next
    case False
    have "\<bar>?q\<bar> < 2 powi 1" using q by simp
    from ulp_exp_le [OF False this] have u: "ulp_exp ?q \<le> 0" by simp
    have "double_round ?q \<le> of_int 1 * 2 powi 0"
      by (rule double_round_le [OF False _ u]) (use q in simp)
    then show ?thesis by simp
  qed
  show "\<bar>double_round ?q - ?q\<bar> \<le> 1 / 2 ^ 53"
  proof (cases "?q = 0")
    case True
    then show ?thesis by (simp add: double_round_def)
  next
    case False
    have "\<bar>?q\<bar> < 2 powi 1" using q by simp
    from ulp_exp_le [OF False this] have u: "ulp_exp ?q \<le> - 52" by simp
    have "\<bar>double_round ?q - ?q\<bar> \<le> 2 powi ulp_exp ?q / 2"
      by (rule double_round_err [OF False])
    also have "\<dots> \<le> 2 powi (- 52) / 2"
      using u by (intro divide_right_mono power_int_increasing) simp_all
    also have "\<dots> = 1 / 2 ^ 53" by simp
    finally show ?thesis .
  qed
qed

lemma floor_double_round_between:
  assumes "0 \<le> x" "x < 256" "of_int lo \<le> x" "x \<le> of_int hi + 1 - 1 / 2 ^ 44"
  shows "lo \<le> \<lfloor>double_round x\<rfloor> \<and> \<lfloor>double_round x\<rfloor> \<le> hi"
proof (cases "x = 0")
  case True
  with assms have "lo \<le> 0" by simp
  moreover from True assms(4) have "(0::rat) < of_int hi + 1" by simp
  then have "0 < hi + 1" by (metis of_int_0_less_iff of_int_1 of_int_add)
  ultimately show ?thesis using True by (simp add: double_round_def)
next
  case False
  have "\<bar>x\<bar> < 2 powi 8" using assms by simp
  from ulp_exp_le [OF False this] have u: "ulp_exp x \<le> - 45" by simp
  have "of_int lo * 2 powi 0 \<le> double_round x"
    by (rule double_round_ge [OF False]) (use assms u in simp_all)
  then have lo: "of_int lo \<le> double_round x" by simp
  have eq: "of_int ((hi + 1) * 2 ^ 44 - 1) * (2::rat) powi (- 44) = of_int hi + 1 - 1 / 2 ^ 44"
    by (simp add: field_simps)
  have "double_round x \<le> of_int ((hi + 1) * 2 ^ 44 - 1) * 2 powi (- 44)"
    by (rule double_round_le [OF False]) (use assms u eq in simp_all)
  then have "double_round x < of_int (hi + 1)" using eq by simp
  then have "\<lfloor>double_round x\<rfloor> < hi + 1" by (simp only: floor_less_iff)
  with lo show ?thesis by (simp add: le_floor_iff)
qed

lemma floor_double_round:
  assumes "0 \<le> x" "x < 256" "of_int k \<le> x" "x \<le> of_int k + 1 - 1 / 2 ^ 44"
  shows "\<lfloor>double_round x\<rfloor> = k"
  using floor_double_round_between [OF assms] by simp

lemma scaled_eq:
  assumes "0 \<le> c" "c \<le> 255" "0 \<le> b" "b \<le> 255"
  shows "scaled c b = Inr \<lfloor>double_round (of_int c * double_round (of_int b / 255))\<rfloor>"
proof -
  let ?f = "double_round (of_int b / 255)"
  let ?x = "of_int c * ?f"
  note f = factor_bounds [OF assms(3,4)]
  have "\<bar>?f\<bar> \<le> 256" using f by simp
  then have d: "py_int_truediv b 255 = Inr ?f"
    using double_max_ge by (simp add: py_int_truediv_def Let_def)
  have "\<bar>of_int c :: rat\<bar> \<le> 256" using assms by simp
  then have c: "py_float_of_int c = Inr (of_int c)"
    using double_max_ge by (simp add: py_float_of_int_def double_round_small_int assms)
  have x0: "0 \<le> ?x" using assms f by simp
  have "?x \<le> of_int c * 1" using f(2) assms(1) by (intro mult_left_mono) simp_all
  then have x1: "?x \<le> 255" using assms(2) by simp
  have p0: "0 \<le> double_round ?x" using x0 by (rule double_round_nonneg)
  have "double_round 255 = 255" using double_round_small_int [of 255] by simp
  moreover have "double_round ?x \<le> double_round 255"
    using x0 x1 by (intro double_round_mono) simp_all
  ultimately have p1: "double_round ?x \<le> 255" by simp
  have m: "py_float_mul (of_int c) ?f = Fin (double_round ?x)"
    using p0 p1 double_max_ge by (simp add: py_float_mul_def Let_def)
  show ?thesis
    using p0 by (simp add: scaled_def scale_channel_def bind_err_def d c m py_int_of_float_def)
qed

lemma product_error:
  assumes "0 \<le> c" "c \<le> 255" "0 \<le> b" "b \<le> 255"
  shows "\<bar>of_int c * double_round (of_int b / 255)
           - (of_int ((c * b) div 255) + of_int ((c * b) mod 255) / 255)\<bar> \<le> 255 / 2 ^ 53"
proof -
  let ?f = "double_round (of_int b / 255)"
  define k where "k = (c * b) div 255"
  define r where "r = (c * b) mod 255"
  have "c * b = 255 * k + r" by (simp add: k_def r_def)
  then have "(of_int (c * b) :: rat) = of_int (255 * k + r)" by simp
  then have "(of_int c * of_int b :: rat) = 255 * of_int k + of_int r" by simp
  then have "(of_int k + of_int r / 255 :: rat) = of_int c * (of_int b / 255)"
    by (simp add: field_simps)
  then have "\<bar>of_int c * ?f - (of_int ((c * b) div 255) + of_int ((c * b) mod 255) / 255)\<bar>
      = \<bar>of_int c * (?f - of_int b / 255)\<bar>"
    by (simp add: algebra_simps k_def r_def)
  also have "\<dots> = of_int c * \<bar>?f - of_int b / 255\<bar>"
    using assms(1) by (simp add: abs_mult)
  also have "\<dots> \<le> 255 * (1 / 2 ^ 53)"
    using assms factor_bounds(3) [OF assms(3,4)] by (intro mult_mono) simp_all
  finally show ?thesis by simp
qed

lemma quotient_le_255:
  assumes "0 \<le> c" "c \<le> 255" "0 \<le> b" "b \<le> (255::int)"
  shows "0 \<le> (c * b) div 255" and "(c * b) div 255 \<le> 255"
proof -
  have "0 \<le> c * b" using assms by simp
  then show "0 \<le> (c * b) div 255" by (simp add: pos_imp_zdiv_nonneg_iff)
  have "c * b \<le> 255 * 255" using assms by (intro mult_mono) simp_all
  then have "(c * b) div 255 \<le> (255 * 255) div 255" by (intro zdiv_mono1) simp_all
  then show "(c * b) div 255 \<le> 255" by simp
qed

lemma scaled_exact:
  assumes "0 \<le> c" "c \<le> 255" "0 \<le> b" "b \<le> 255" "\<not> 255 dvd c * b"
  shows "scaled c b = Inr ((c * b) div 255)"
proof -
  define k where "k = (c * b) div 255"
  define r where "r = (c * b) mod 255"
  define eps :: rat where "eps = 255 / 2 ^ 53"
  define t :: rat where "t = 1 / 2 ^ 44"
  have et: "eps + t \<le> 1 / 255" "0 \<le> eps" "0 \<le> t" by (simp_all add: eps_def t_def)
  let ?x = "of_int c * double_round (of_int b / 255) :: rat"
  have "0 \<le> r" "r < 255" by (simp_all add: r_def)
  moreover have "r \<noteq> 0" using assms(5) by (simp add: r_def dvd_eq_mod_eq_0)
  ultimately have r: "1 \<le> r" "r \<le> 254" by linarith+
  have rr: "(1::rat) / 255 \<le> of_int r / 255" "(of_int r :: rat) / 255 \<le> 254 / 255"
    using r by simp_all
  have e: "\<bar>?x - (of_int k + of_int r / 255)\<bar> \<le> eps"
    unfolding eps_def k_def r_def by (rule product_error [OF assms(1-4)])
  have lo: "of_int k \<le> ?x" using e rr et by linarith
  have "?x \<le> of_int k + 1 - t" using e rr et by linarith
  then have hi: "?x \<le> of_int k + 1 - 1 / 2 ^ 44" by (simp add: t_def)
  have k0: "0 \<le> k" and "k \<le> 255" using quotient_le_255 [OF assms(1-4)] by (simp_all add: k_def)
  then have k1: "(of_int k :: rat) \<le> 255" by simp
  have x0: "0 \<le> ?x" using lo k0 by (meson of_int_0_le_iff order_trans)
  have x1: "?x < 256" using \<open>?x \<le> of_int k + 1 - t\<close> k1 by (simp add: t_def)
  from floor_double_round [OF x0 x1 lo hi] show ?thesis
    by (simp add: scaled_eq assms k_def)
qed

lemma scaled_full_brightness:
  assumes "0 \<le> c" "c \<le> 255"
  shows "scaled c 255 = Inr c"
proof -
  have "double_round 1 = 1" using double_round_small_int [of 1] by simp
  then show ?thesis
    using assms by (simp add: scaled_eq double_round_small_int)
qed

lemma scaled_zero:
  assumes "0 \<le> c" "c \<le> 255" "0 \<le> b" "b \<le> 255" "c = 0 \<or> b = 0"
  shows "scaled c b = Inr 0"
  using assms by (auto simp: scaled_eq double_round_def)

lemma scaled_mono:
  assumes "0 \<le> c" "c \<le> 255" "0 \<le> b" "b \<le> b'" "b' \<le> 255"
  shows "\<exists>v v'. scaled c b = Inr v \<and> scaled c b' = Inr v' \<and> v \<le> v'"
proof -
  let ?f = "double_round (of_int b / 255)"
  let ?f' = "double_round (of_int b' / 255)"
  have q: "(0::rat) \<le> of_int b / 255" "(of_int b :: rat) / 255 \<le> of_int b' / 255"
    using assms by simp_all
  have ff: "?f \<le> ?f'" using q by (rule double_round_mono)
  have f0: "0 \<le> ?f" using q(1) by (rule double_round_nonneg)
  have c0: "(0::rat) \<le> of_int c" using assms(1) by simp
  have "of_int c * ?f \<le> of_int c * ?f'" using ff c0 by (rule mult_left_mono)
  moreover have "0 \<le> of_int c * ?f" using c0 f0 by (rule mult_nonneg_nonneg)
  ultimately have "double_round (of_int c * ?f) \<le> double_round (of_int c * ?f')"
    by (intro double_round_mono)
  then have "\<lfloor>double_round (of_int c * ?f)\<rfloor> \<le> \<lfloor>double_round (of_int c * ?f')\<rfloor>"
    by (rule floor_mono)
  then show ?thesis using assms by (simp add: scaled_eq)
qed

lemma scaled_bounds:
  assumes "0 \<le> c" "c \<le> 255" "0 \<le> b" "b \<le> 255"
  shows "\<exists>v. scaled c b = Inr v \<and> (c * b) div 255 - 1 \<le> v \<and> v \<le> (c * b) div 255"
proof (cases "255 dvd c * b")
  case False
  then show ?thesis using scaled_exact [OF assms] by simp
next
  case True
  define k where "k = (c * b) div 255"
  define eps :: rat where "eps = 255 / 2 ^ 53"
  define t :: rat where "t = 1 / 2 ^ 44"
  have et: "eps + t \<le> 1 / 255" "0 \<le> eps" "0 \<le> t" by (simp_all add: eps_def t_def)
  let ?x = "of_int c * double_round (of_int b / 255) :: rat"
  from True have r: "(c * b) mod 255 = 0" by simp
  have "\<bar>?x - (of_int k + of_int ((c * b) mod 255) / 255)\<bar> \<le> eps"
    unfolding eps_def k_def by (rule product_error [OF assms(1-4)])
  then have e: "\<bar>?x - of_int k\<bar> \<le> eps" by (simp add: r)
  have k0: "0 \<le> k" and "k \<le> 255" using quotient_le_255 [OF assms(1-4)] by (simp_all add: k_def)
  then have k1: "(of_int k :: rat) \<le> 255" by simp
  have x0: "0 \<le> ?x" using assms factor_bounds(1) [OF assms(3,4)] by simp
  have hit: "?x \<le> of_int k + 1 - t" using e et by linarith
  then have hi: "?x \<le> of_int k + 1 - 1 / 2 ^ 44" by (simp add: t_def)
  have x1: "?x < 256" using hit k1 by (simp add: t_def)
  have km: "(of_int (k - 1) :: rat) = of_int k - 1" by simp
  have lo: "of_int (k - 1) \<le> ?x" unfolding km using e et by linarith
  from floor_double_round_between [OF x0 x1 lo hi] show ?thesis
    by (simp add: scaled_eq assms k_def)
qed

text \<open>
  The scaling truncates, and where the exact product is an integer the rounding of
  \<^verbatim>\<open>brightness / 255\<close> can leave the double just below it: \<^verbatim>\<open>int(51 * (155 / 255))\<close> is 30,
  not 31.
\<close>

lemma round_half_even_unique:
  assumes "of_int m - 1 / 2 < q" "q < of_int m + 1 / 2"
  shows "round_half_even q = m"
proof (cases "of_int m \<le> q")
  case True
  with assms(2) have "\<lfloor>q\<rfloor> = m" by (intro floor_unique) simp_all
  with assms(2) show ?thesis by (simp add: round_half_even_def)
next
  case False
  with assms(1) have "\<lfloor>q\<rfloor> = m - 1" by (intro floor_unique) simp_all
  with assms(1) show ?thesis by (simp add: round_half_even_def)
qed

lemma double_round_eval:
  assumes "2 powi e \<le> \<bar>q\<bar>" "\<bar>q\<bar> < 2 powi (e + 1)" "- 1022 \<le> e"
    and "of_int m - 1 / 2 < q / 2 powi (e - 52)" "q / 2 powi (e - 52) < of_int m + 1 / 2"
  shows "double_round q = of_int m * 2 powi (e - 52)"
proof -
  have "0 < (2::rat) powi e" by simp
  with assms(1) have "0 < \<bar>q\<bar>" by linarith
  then have q: "q \<noteq> 0" by simp
  have "binade q = e" using assms(1,2) by (rule binade_unique)
  then have "ulp_exp q = e - 52" using assms(3) by (simp add: ulp_exp_def)
  moreover have "round_half_even (q / 2 powi (e - 52)) = m"
    using assms(4,5) by (rule round_half_even_unique)
  ultimately show ?thesis by (simp add: double_round_pos q)
qed

lemma factor_155: "double_round (155 / 255) = 5474964252881779 / 9007199254740992"
  using double_round_eval [where e = "- 1" and m = 5474964252881779 and q = "155 / 255"]
  by simp

lemma product_51_155:
  "double_round (51 * (5474964252881779 / 9007199254740992)) = 8725724278030335 / 281474976710656"
  using double_round_eval [where e = 4 and m = 8725724278030335
      and q = "51 * (5474964252881779 / 9007199254740992)"]
  by simp

lemma scaled_51_155: "scaled 51 155 = Inr 30"
proof -
  have fl: "\<lfloor>8725724278030335 / 281474976710656 :: rat\<rfloor> = 30"
    by (rule floor_unique) simp_all
  have "scaled 51 155 = Inr \<lfloor>double_round (of_int 51 * double_round (of_int 155 / 255))\<rfloor>"
    by (rule scaled_eq) simp_all
  also have "\<dots> = Inr \<lfloor>double_round (51 * double_round (155 / 255))\<rfloor>"
    by (simp only: of_int_numeral)
  also have "\<dots> = Inr 30"
    by (simp only: factor_155 product_51_155 fl)
  finally show ?thesis .
qed

text \<open>
  A channel of 255 is scaled to the brightness itself: the error of \<^verbatim>\<open>brightness / 255\<close>,
  multiplied by 255, stays below half a unit in the last place of the product, so the
  product rounds to the integer.
\<close>

lemma factor_binade:
  assumes "1 \<le> b" "b \<le> 254"
  shows "- 8 \<le> binade (of_int b / 255)" and "binade (of_int b / 255) \<le> - 1"
proof -
  let ?q = "of_int b / 255 :: rat"
  have q: "?q \<noteq> 0" "0 < ?q" "?q < 1" "1 / 255 \<le> ?q" using assms by simp_all
  note bb = binade_bounds [OF q(1)]
  have "\<bar>?q\<bar> < 2 powi 0" using q by simp
  from binade_less [OF q(1) this] show "binade ?q \<le> - 1" by simp
  have "(2::rat) powi (- 8) < 1 / 255" by simp
  also have "\<dots> \<le> \<bar>?q\<bar>" using q by simp
  also have "\<dots> < 2 powi (binade ?q + 1)" using bb by simp
  finally have "- 8 < binade ?q + 1"
    by (metis not_le power_int_increasing one_le_numeral)
  then show "- 8 \<le> binade ?q" by simp
qed

lemma round_255_pow: "round_half_even ((2::rat) ^ 60 / 255) = 4521260802379792"
  by (rule round_half_even_unique) simp_all

lemma full_channel_round:
  assumes "1 \<le> b" "b \<le> 254"
  shows "double_round (255 * double_round (of_int b / 255)) = of_int b"
proof -
  define q :: rat where "q = of_int b / 255"
  define e where "e = binade q"
  define f where "f = double_round q"
  define x where "x = 255 * f"
  define n :: int where "n = 2 ^ nat (e + 8)"
  define nr :: rat where "nr = of_int n"
  have q0: "q \<noteq> 0" "0 < q" using assms by (simp_all add: q_def)
  have e: "- 8 \<le> e" "e \<le> - 1"
    using factor_binade [OF assms] by (simp_all add: e_def q_def)
  have ue: "ulp_exp q = e - 52" using e by (simp add: ulp_exp_def e_def)
  have pn: "(2::rat) powi (e + 8) = nr"
    using e by (simp add: nr_def n_def power_int_def)
  have pw: "(2::rat) powi (e + k) = nr * 2 powi (k - 8)" for k
  proof -
    have "(2::rat) powi (e + k) = 2 powi ((e + 8) + (k - 8))" by simp
    also have "\<dots> = 2 powi (e + 8) * 2 powi (k - 8)" by (intro power_int_add) simp
    finally show ?thesis by (simp add: pn)
  qed
  have pe: "(2::rat) powi e = nr / 256" using pw [of 0] by simp
  have pe1: "(2::rat) powi (e + 1) = nr / 128" using pw [of 1] by simp
  have pu: "(2::rat) powi (e - 52) = nr / 2 ^ 60" using pw [of "- 52"] by simp
  have n1: "1 \<le> n" by (simp add: n_def)
  have "n \<le> 2 ^ 7" unfolding n_def using e by (intro power_increasing) simp_all
  then have n128: "n \<le> 128" by simp
  have nr: "1 \<le> nr" "nr \<le> 128" using n1 n128 by (simp_all add: nr_def)
  have bb: "nr / 256 \<le> q" "q < nr / 128"
    using binade_bounds [OF q0(1)] q0(2) by (simp_all add: e_def [symmetric] pe pe1)
  have "255 * nr \<le> 256 * of_int b" using bb(1) by (simp add: q_def field_simps)
  then have "(of_int (255 * n) :: rat) \<le> of_int (256 * b)" by (simp add: nr_def)
  then have lo: "255 * n \<le> 256 * b" by (simp only: of_int_le_iff)
  have "128 * of_int b < 255 * nr" using bb(2) by (simp add: q_def field_simps)
  then have "(of_int (128 * b) :: rat) < of_int (255 * n)" by (simp add: nr_def)
  then have hi: "128 * b < 255 * n" by (simp only: of_int_less_iff)
  have bn: "n \<le> b" using lo n128 by linarith
  have b2n: "b \<le> 2 * n - 1" using hi n1 by linarith
  have "\<bar>f - q\<bar> \<le> 2 powi ulp_exp q / 2" unfolding f_def by (rule double_round_err [OF q0(1)])
  then have err: "\<bar>f - q\<bar> \<le> nr / 2 ^ 61" by (simp add: ue pu)
  have "x - of_int b = 255 * (f - q)" by (simp add: x_def q_def)
  then have "\<bar>x - of_int b\<bar> = \<bar>255\<bar> * \<bar>f - q\<bar>" by (simp only: abs_mult)
  with err have xerr: "\<bar>x - of_int b\<bar> \<le> 255 * nr / 2 ^ 61" by simp
  have "double_round x = of_int b"
  proof (cases "b = n")
    case True
    then have qn: "q = nr / 255" by (simp add: q_def nr_def)
    have uq: "(2::rat) powi ulp_exp q = nr / 2 ^ 60" by (simp add: ue pu)
    have "q / (nr / 2 ^ 60) = 2 ^ 60 / 255" using nr by (simp add: qn)
    then have "round_half_even (q / 2 powi ulp_exp q) = 4521260802379792"
      by (simp only: uq round_255_pow)
    then have "f = of_int 4521260802379792 * (nr / 2 ^ 60)"
      unfolding f_def double_round_pos [OF q0(1)] by (simp only: uq)
    then have xv: "x = nr - nr / 2 ^ 56" by (simp add: x_def field_simps)
    have x0: "x \<noteq> 0" "0 < x" using nr by (simp_all add: xv field_simps)
    have "binade x = e + 7"
    proof (rule binade_unique)
      show "2 powi (e + 7) \<le> \<bar>x\<bar>" using nr x0 by (simp add: pw [of 7] xv field_simps)
      show "\<bar>x\<bar> < 2 powi (e + 7 + 1)" using nr x0 by (simp add: pn xv field_simps)
    qed
    then have ux: "ulp_exp x = e - 45" using e by (simp add: ulp_exp_def)
    have pux: "(2::rat) powi (e - 45) = nr / 2 ^ 53" using pw [of "- 45"] by simp
    have uxv: "(2::rat) powi ulp_exp x = nr / 2 ^ 53" by (simp add: ux pux)
    have "x / (nr / 2 ^ 53) = 2 ^ 53 - 1 / 8" using nr by (simp add: xv field_simps)
    then have xu: "x / 2 powi ulp_exp x = 2 ^ 53 - 1 / 8" by (simp only: uxv)
    have "round_half_even (x / 2 powi ulp_exp x) = 2 ^ 53"
      unfolding xu by (rule round_half_even_unique) simp_all
    then have "double_round x = of_int (2 ^ 53) * (nr / 2 ^ 53)"
      unfolding double_round_pos [OF x0(1)] by (simp only: uxv)
    then have "double_round x = nr" by simp
    then show ?thesis using True by (simp add: nr_def)
  next
    case False
    with bn have "n + 1 \<le> b" by simp
    then have "(of_int (n + 1) :: rat) \<le> of_int b" by (simp only: of_int_le_iff)
    then have b1: "nr + 1 \<le> of_int b" by (simp add: nr_def)
    have "(of_int b :: rat) \<le> of_int (2 * n - 1)" using b2n by (simp only: of_int_le_iff)
    then have b2: "of_int b \<le> 2 * nr - 1" by (simp add: nr_def)
    have tiny: "255 * nr / 2 ^ 61 \<le> 1 / 2" "0 \<le> 255 * nr / 2 ^ 61" using nr by simp_all
    have xl: "nr \<le> x" using xerr b1 tiny by linarith
    have xh: "x < 2 * nr" using xerr b2 tiny by linarith
    have x0: "x \<noteq> 0" "0 < x" using xl nr by simp_all
    have "binade x = e + 8"
    proof (rule binade_unique)
      show "2 powi (e + 8) \<le> \<bar>x\<bar>" using xl x0 by (simp add: pn)
      have "(2::rat) powi (e + 8 + 1) = 2 * nr" using pw [of 9] by (simp add: algebra_simps)
      then show "\<bar>x\<bar> < 2 powi (e + 8 + 1)" using xh x0 by (simp only: abs_of_pos)
    qed
    then have ux: "ulp_exp x = e - 44" using e by (simp add: ulp_exp_def)
    have pux: "(2::rat) powi (e - 44) = nr / 2 ^ 52" using pw [of "- 44"] by simp
    define B where "B = b * 2 ^ nat (44 - e)"
    define u :: rat where "u = nr / 2 ^ 52"
    have u0: "0 < u" using nr by (simp add: u_def)
    have uxv: "(2::rat) powi ulp_exp x = u" by (simp add: ux pux u_def)
    have "(2::rat) powi (44 - e) = 2 ^ nat (44 - e)" using e by (simp add: power_int_def)
    moreover have "(2::rat) powi (44 - e) * 2 powi (e - 44) = 1"
      by (simp flip: power_int_add)
    ultimately have Bu: "of_int B * u = (of_int b :: rat)"
      by (simp add: B_def pux u_def)
    have "(x - of_int B * u) / u = x / u - of_int B"
      using u0 by (simp add: diff_divide_distrib)
    then have "x / u - of_int B = (x - of_int b) / u" by (simp only: Bu)
    then have "\<bar>x / u - of_int B\<bar> = \<bar>x - of_int b\<bar> / u"
      using u0 by (simp only: abs_divide abs_of_pos)
    also have "\<dots> \<le> (255 * nr / 2 ^ 61) / u"
      using xerr u0 by (intro divide_right_mono) simp_all
    also have "\<dots> = 255 / 512" using nr by (simp add: u_def)
    finally have "\<bar>x / u - of_int B\<bar> \<le> 255 / 512" .
    then have "of_int B - 1 / 2 < x / u" "x / u < of_int B + 1 / 2"
      by linarith+
    then have "round_half_even (x / u) = B" by (rule round_half_even_unique)
    then have "double_round x = of_int B * u"
      unfolding double_round_pos [OF x0(1)] by (simp only: uxv)
    then show ?thesis by (simp only: Bu)
  qed
  then show ?thesis by (simp add: x_def f_def q_def)
qed

lemma scaled_full_channel:
  assumes "0 \<le> b" "b \<le> 255"
  shows "scaled 255 b = Inr b"
proof -
  consider "b = 0" | "b = 255" | "1 \<le> b \<and> b \<le> 254" using assms by linarith
  then show ?thesis
  proof cases
    case 1
    then show ?thesis using scaled_zero [of 255 0] by simp
  next
    case 2
    then show ?thesis using scaled_full_brightness [of 255] by simp
  next
    case 3
    then have "double_round (255 * double_round (of_int b / 255)) = of_int b"
      using full_channel_round by blast
    then show ?thesis using scaled_eq [of 255 b] assms by simp
  qed
qed

lemma apply_brightness_scaled:
  "apply_brightness (r, g, b) bri =
     bind_err (scaled r bri) (\<lambda>r'. bind_err (scaled g bri) (\<lambda>g'.
       bind_err (scaled b bri) (\<lambda>b'. Inr (r', g', b'))))"
  by (cases "py_int_truediv bri 255")
     (auto simp: apply_brightness_def scaled_def bind_err_def split: sum.splits)

lemma scaled_range:
  assumes "0 \<le> c" "c \<le> 255" "0 \<le> b" "b \<le> 255"
  shows "\<exists>v. scaled c b = Inr v \<and> 0 \<le> v \<and> v \<le> 255"
proof -
  have "0 \<le> double_round (of_int c * double_round (of_int b / 255))"
    using assms factor_bounds(1) [OF assms(3,4)] by (intro double_round_nonneg) simp
  then have "0 \<le> \<lfloor>double_round (of_int c * double_round (of_int b / 255))\<rfloor>" by simp
  moreover obtain v where "scaled c b = Inr v" "v \<le> (c * b) div 255"
    using scaled_bounds [OF assms] by blast
  ultimately show ?thesis
    using quotient_le_255(2) [OF assms] scaled_eq [OF assms] by auto
qed

lemma scaled_truncates:
  assumes "0 \<le> c" "c \<le> 255" "0 \<le> b" "b \<le> 255"
  shows "\<exists>v. scaled c b = Inr v \<and> truncated_scale c b v"
proof -
  obtain v where v: "scaled c b = Inr v" "0 \<le> v" "v \<le> 255"
    using scaled_range [OF assms] by blast
  have "v = (c * b) div 255" if "\<not> 255 dvd c * b \<or> b = 255 \<or> b = 0 \<or> c = 255 \<or> c = 0"
    using that v(1) scaled_exact [OF assms] scaled_full_brightness [OF assms(1,2)]
      scaled_full_channel [OF assms(3,4)] scaled_zero [OF assms] by auto
  with v show ?thesis by (auto simp: truncated_scale_def)
qed

text \<open>
  C2 (as amended). When \<open>is_on\<close> is false the colour is (0,0,0) whatever is stored.
  Otherwise, for brightness and channels in 0..255, each channel is scaled on its own and
  the product is truncated, not rounded: the result is \<open>floor(channel * brightness / 255)\<close>
  whenever \<open>channel * brightness\<close> is not a multiple of 255, and also at brightness 255 or 0
  and at channel 255 or 0.
\<close>

theorem visible_color_truncates:
  "(\<not> is_on s \<longrightarrow> visible_color s = Inr (0, 0, 0))
   \<and> (is_on s \<and> state_in_range s \<and> rgb_color s = (r, g, b) \<longrightarrow>
        (\<exists>r' g' b'. visible_color s = Inr (r', g', b')
           \<and> truncated_scale r (brightness s) r'
           \<and> truncated_scale g (brightness s) g'
           \<and> truncated_scale b (brightness s) b'))"
proof (intro conjI impI)
  assume "\<not> is_on s"
  then show "visible_color s = Inr (0, 0, 0)" by (simp add: visible_color_def)
next
  assume h: "is_on s \<and> state_in_range s \<and> rgb_color s = (r, g, b)"
  then have rng: "0 \<le> brightness s" "brightness s \<le> 255" "0 \<le> r" "r \<le> 255"
    "0 \<le> g" "g \<le> 255" "0 \<le> b" "b \<le> 255"
    by (auto simp: state_in_range_def)
  obtain r' where r': "scaled r (brightness s) = Inr r'" "truncated_scale r (brightness s) r'"
    using scaled_truncates [OF rng(3,4,1,2)] by blast
  obtain g' where g': "scaled g (brightness s) = Inr g'" "truncated_scale g (brightness s) g'"
    using scaled_truncates [OF rng(5,6,1,2)] by blast
  obtain b' where b': "scaled b (brightness s) = Inr b'" "truncated_scale b (brightness s) b'"
    using scaled_truncates [OF rng(7,8,1,2)] by blast
  have "visible_color s = Inr (r', g', b')"
    using h r'(1) g'(1) b'(1) by (simp add: visible_color_def apply_brightness_scaled bind_err_def)
  with r'(2) g'(2) b'(2)
  show "\<exists>r' g' b'. visible_color s = Inr (r', g', b')
           \<and> truncated_scale r (brightness s) r'
           \<and> truncated_scale g (brightness s) g'
           \<and> truncated_scale b (brightness s) b'"
    by blast
qed

theorem visible_color_truncates_witness:
  "visible_color \<lparr>is_on = True, brightness = 128, rgb_color = (255, 100, 0)\<rparr> = Inr (128, 50, 0)
   \<and> visible_color \<lparr>is_on = False, brightness = 128, rgb_color = (255, 100, 0)\<rparr> = Inr (0, 0, 0)"
  using visible_color_truncates [of "\<lparr>is_on = True, brightness = 128, rgb_color = (255, 100, 0)\<rparr>" 255 100 0]
    visible_color_truncates [of "\<lparr>is_on = False, brightness = 128, rgb_color = (255, 100, 0)\<rparr>" 255 100 0]
  by (auto simp: state_in_range_def truncated_scale_def)

text \<open>
  The claim as it was stated, with \<open>round\<close> in place of the truncation, fails: channel 1
  at brightness 200 is sent as 0, and \<open>round(1 * 200 / 255)\<close> is 1.
\<close>

theorem visible_color_not_rounded:
  "visible_color \<lparr>is_on = True, brightness = 200, rgb_color = (1, 1, 1)\<rparr> = Inr (0, 0, 0)
   \<and> round ((1::rat) * 200 / 255) = 1"
proof -
  have "scaled 1 200 = Inr 0" using scaled_exact [of 1 200] by simp
  then have "visible_color \<lparr>is_on = True, brightness = 200, rgb_color = (1, 1, 1)\<rparr> = Inr (0, 0, 0)"
    by (simp add: visible_color_def apply_brightness_scaled bind_err_def)
  moreover have "round ((1::rat) * 200 / 255) = 1"
    unfolding round_def by (rule floor_unique) simp_all
  ultimately show ?thesis by simp
qed

text \<open>
  C10. For every channel value in 0..255, scaling at brightness 255 returns the channel
  unchanged; and for a fixed channel value the scaled result does not increase when the
  brightness decreases within 0..255.
\<close>

theorem scaled_identity_and_monotone:
  "(0 \<le> c \<and> c \<le> 255 \<longrightarrow> scaled c 255 = Inr c)
   \<and> (0 \<le> c \<and> c \<le> 255 \<and> 0 \<le> b \<and> b \<le> b' \<and> b' \<le> 255 \<longrightarrow>
        (\<exists>v v'. scaled c b = Inr v \<and> scaled c b' = Inr v' \<and> v \<le> v'))"
  using scaled_full_brightness [of c] scaled_mono [of c b b'] by blast

theorem scaled_identity_and_monotone_witness:
  "scaled 200 255 = Inr 200
   \<and> (\<exists>v v'. scaled 200 100 = Inr v \<and> scaled 200 101 = Inr v' \<and> v \<le> v')"
  using scaled_identity_and_monotone [of 200 100 101] by simp

section \<open>Decimal strings are injective\<close>








section \<open>Per-panel updates send the whole layout\<close>

lemma store_init_present: "store_init store key key \<noteq> None"
  by (simp add: store_init_def split: option.split)



lemma scaled_color_off: "\<not> is_on s \<Longrightarrow> scaled_color s col \<longleftrightarrow> col = (0, 0, 0)"
  by (cases col; cases "rgb_color s") (auto simp: scaled_color_def)

lemma visible_color_scaled:
  assumes "state_in_range s"
  shows "\<exists>c. visible_color s = Inr c \<and> scaled_color s c"
proof (cases "is_on s")
  case False
  then have "visible_color s = Inr (0, 0, 0)" by (simp add: visible_color_def)
  with False show ?thesis by (simp add: scaled_color_off)
next
  case True
  obtain r g b where c: "rgb_color s = (r, g, b)" by (metis prod_cases3)
  with assms have rng: "0 \<le> brightness s" "brightness s \<le> 255" "0 \<le> r" "r \<le> 255"
    "0 \<le> g" "g \<le> 255" "0 \<le> b" "b \<le> 255"
    by (auto simp: state_in_range_def)
  obtain r' where r': "scaled r (brightness s) = Inr r'" "truncated_scale r (brightness s) r'"
    using scaled_truncates [OF rng(3,4,1,2)] by blast
  obtain g' where g': "scaled g (brightness s) = Inr g'" "truncated_scale g (brightness s) g'"
    using scaled_truncates [OF rng(5,6,1,2)] by blast
  obtain b' where b': "scaled b (brightness s) = Inr b'" "truncated_scale b (brightness s) b'"
    using scaled_truncates [OF rng(7,8,1,2)] by blast
  have "visible_color s = Inr (r', g', b')"
    using True c r'(1) g'(1) b'(1)
    by (simp add: visible_color_def apply_brightness_scaled bind_err_def)
  moreover have "scaled_color s (r', g', b')"
    using True c r'(2) g'(2) b'(2) by (simp add: scaled_color_def)
  ultimately show ?thesis by blast
qed





section \<open>Group updates send the group's panels only\<close>

lemma keys_dict_set: "fst ` set (dict_set k v d) = insert k (fst ` set d)"
  by (induction d) auto

lemma values_dict_set: "p \<in> set (dict_set k v d) \<Longrightarrow> snd p = v \<or> p \<in> set d"
  by (induction d) (auto split: if_splits)

lemma dict_set_fresh: "k \<notin> fst ` set d \<Longrightarrow> dict_set k v d = d @ [(k, v)]"
  by (induction d) auto

lemma distinct_dict_set: "distinct (map fst d) \<Longrightarrow> distinct (map fst (dict_set k v d))"
proof (induction d)
  case Nil
  then show ?case by simp
next
  case (Cons p d)
  have "fst p \<notin> fst ` set (dict_set k v d)" if "fst p \<noteq> k"
    using that Cons.prems by (simp add: keys_dict_set)
  with Cons show ?case by (cases "fst p = k") auto
qed

lemma keys_foldl_dict_set:
  "fst ` set (foldl (\<lambda>pc k. dict_set k c pc) d ks) = fst ` set d \<union> set ks"
proof (induction ks arbitrary: d)
  case Nil
  show ?case by simp
next
  case (Cons k ks)
  have "fst ` set (foldl (\<lambda>pc k. dict_set k c pc) (dict_set k c d) ks)
      = fst ` set (dict_set k c d) \<union> set ks"
    by (rule Cons.IH)
  also have "\<dots> = insert k (fst ` set d) \<union> set ks" by (simp only: keys_dict_set)
  also have "\<dots> = fst ` set d \<union> set (k # ks)" by auto
  finally show ?case by simp
qed

lemma distinct_foldl_dict_set:
  "distinct (map fst d) \<Longrightarrow> distinct (map fst (foldl (\<lambda>pc k. dict_set k c pc) d ks))"
proof (induction ks arbitrary: d)
  case Nil
  then show ?case by simp
next
  case (Cons k ks)
  have "distinct (map fst (dict_set k c d))" using Cons.prems by (rule distinct_dict_set)
  then have "distinct (map fst (foldl (\<lambda>pc k. dict_set k c pc) (dict_set k c d) ks))"
    by (rule Cons.IH)
  then show ?case by simp
qed

lemma values_foldl_dict_set:
  "\<forall>p \<in> set d. snd p = c \<Longrightarrow> \<forall>p \<in> set (foldl (\<lambda>pc k. dict_set k c pc) d ks). snd p = c"
proof (induction ks arbitrary: d)
  case Nil
  then show ?case by simp
next
  case (Cons k ks)
  have "\<forall>p \<in> set (dict_set k c d). snd p = c"
  proof
    fix p assume "p \<in> set (dict_set k c d)"
    then have "snd p = c \<or> p \<in> set d" by (rule values_dict_set)
    with Cons.prems show "snd p = c" by blast
  qed
  then have "\<forall>p \<in> set (foldl (\<lambda>pc k. dict_set k c pc) (dict_set k c d) ks). snd p = c"
    by (rule Cons.IH)
  then show ?case by simp
qed

lemma foldl_dict_set_distinct:
  "distinct ks \<Longrightarrow> fst ` set d \<inter> set ks = {} \<Longrightarrow>
   foldl (\<lambda>pc k. dict_set k c pc) d ks = d @ map (\<lambda>k. (k, c)) ks"
proof (induction ks arbitrary: d)
  case Nil
  then show ?case by simp
next
  case (Cons k ks)
  have f: "dict_set k c d = d @ [(k, c)]" using Cons.prems(2) by (intro dict_set_fresh) auto
  have "fst ` set (d @ [(k, c)]) \<inter> set ks = {}" using Cons.prems by auto
  moreover have "distinct ks" using Cons.prems(1) by simp
  ultimately have "foldl (\<lambda>pc k. dict_set k c pc) (d @ [(k, c)]) ks
      = (d @ [(k, c)]) @ map (\<lambda>k. (k, c)) ks"
    by (rule Cons.IH [rotated])
  then show ?case by (simp add: f)
qed

lemma build_group_colors_members:
  "fst ` set (build_group_colors panel_ids color) = set panel_ids
   \<and> distinct (map fst (build_group_colors panel_ids color))
   \<and> (\<forall>p \<in> set (build_group_colors panel_ids color). snd p = color)"
proof -
  have "fst ` set (build_group_colors panel_ids color) = set panel_ids"
    unfolding build_group_colors_def by (simp only: keys_foldl_dict_set) simp
  moreover have "distinct (map fst (build_group_colors panel_ids color))"
    unfolding build_group_colors_def by (rule distinct_foldl_dict_set) simp
  moreover have "\<forall>p \<in> set (build_group_colors panel_ids color). snd p = color"
    unfolding build_group_colors_def by (rule values_foldl_dict_set) simp
  ultimately show ?thesis by blast
qed

lemma build_group_colors_distinct:
  "distinct panel_ids \<Longrightarrow> build_group_colors panel_ids color = map (\<lambda>k. (k, color)) panel_ids"
  using foldl_dict_set_distinct [of panel_ids "[]" color] by (simp add: build_group_colors_def)

lemma streaming_send_events:
  "set_multiple_panels_udp a pcs True so po = (expected_group_events a pcs so, Inr ())"
proof (cases "external_control_enabled a \<and> udp_socket a \<noteq> None")
  case False
  then show ?thesis
    by (auto simp: set_multiple_panels_udp_def set_multiple_panels_eq expected_group_events_def
        Let_def)
next
  case en: True
  show ?thesis
  proof (cases "wire_ok pcs")
    case True
    from build_packet_bytes [OF True, of True] en True show ?thesis
      by (cases so)
         (simp_all add: set_multiple_panels_udp_def set_multiple_panels_eq socket_sendto_def
            expected_group_events_def Let_def)
  next
    case False
    then have "build_packet pcs True = Inl StructError" by (rule build_packet_unpackable)
    then have "set_multiple_panels_udp a pcs True so po = set_multiple_panels a pcs 0 po"
      by (rule streaming_send_unpackable)
    with False show ?thesis
      by (simp add: set_multiple_panels_eq expected_group_events_def Let_def)
  qed
qed

lemma set_group_color_events:
  assumes "visible_color new = Inr color"
  shows "async_set_group_color a e idx panel_ids (gs(group_state_key e idx \<mapsto> new)) so po
     = expected_group_events a (build_group_colors panel_ids color) so"
  using assms
  by (simp add: async_set_group_color_def store_get_def Let_def streaming_send_events)

text \<open>
  C8. Let the group entity have its entry in \<^verbatim>\<open>GROUP_STATES\<close> (its constructor puts it there).
  A turn_on whose resulting state is in range, and a turn_off, each build a mapping whose
  keys are exactly the group's panel ids, once each, and whose values are all one colour:
  each channel of the group's new colour scaled by its new brightness and truncated for
  turn_on, (0,0,0) for turn_off. What goes out encodes that mapping and nothing else, for
  every state of the channel and every outcome of the send. With the streaming channel
  disabled it is the one \<^verbatim>\<open>PUT /effects\<close> with the animation text of that mapping: no panel
  outside the group is listed, and neither the layout nor the per-panel store is read.
  With the channel enabled and a mapping that fits the datagram it is the one datagram of
  that mapping, followed by the same \<^verbatim>\<open>PUT /effects\<close> when the send raises; with a mapping
  that does not fit, it is that \<^verbatim>\<open>PUT /effects\<close> alone.
\<close>

theorem group_update_members_only:
  assumes "gs (group_state_key e idx) = Some old"
  shows "(state_in_range (apply_turn_on kw old) \<longrightarrow>
          (\<exists>color pcs.
             visible_color (apply_turn_on kw old) = Inr color
             \<and> scaled_color (apply_turn_on kw old) color
             \<and> pcs = build_group_colors panel_ids color
             \<and> fst ` set pcs = set panel_ids \<and> distinct (map fst pcs)
             \<and> (\<forall>p \<in> set pcs. snd p = color)
             \<and> fst (group_async_turn_on a e idx panel_ids kw gs so po) =
                 expected_group_events a pcs so))
       \<and> (\<exists>pcs.
             pcs = build_group_colors panel_ids (0, 0, 0)
             \<and> fst ` set pcs = set panel_ids \<and> distinct (map fst pcs)
             \<and> (\<forall>p \<in> set pcs. snd p = (0, 0, 0))
             \<and> fst (group_async_turn_off a e idx panel_ids gs so po) =
                 expected_group_events a pcs so)"
proof (intro conjI impI)
  assume "state_in_range (apply_turn_on kw old)"
  then obtain color where c: "visible_color (apply_turn_on kw old) = Inr color"
    and sc: "scaled_color (apply_turn_on kw old) color"
    using visible_color_scaled by blast
  have st: "store_update gs (group_state_key e idx) (apply_turn_on kw)
      = gs(group_state_key e idx \<mapsto> apply_turn_on kw old)"
    using assms by (simp add: store_update_def)
  have "fst (group_async_turn_on a e idx panel_ids kw gs so po) =
      expected_group_events a (build_group_colors panel_ids color) so"
    by (simp add: group_async_turn_on_def Let_def st set_group_color_events [OF c])
  with c sc build_group_colors_members [of panel_ids color]
  show "\<exists>color pcs.
             visible_color (apply_turn_on kw old) = Inr color
             \<and> scaled_color (apply_turn_on kw old) color
             \<and> pcs = build_group_colors panel_ids color
             \<and> fst ` set pcs = set panel_ids \<and> distinct (map fst pcs)
             \<and> (\<forall>p \<in> set pcs. snd p = color)
             \<and> fst (group_async_turn_on a e idx panel_ids kw gs so po) =
                 expected_group_events a pcs so"
    by blast
next
  have c: "visible_color (apply_turn_off old) = Inr (0, 0, 0)"
    by (simp add: visible_color_def apply_turn_off_def)
  have st: "store_update gs (group_state_key e idx) apply_turn_off
      = gs(group_state_key e idx \<mapsto> apply_turn_off old)"
    using assms by (simp add: store_update_def)
  have "fst (group_async_turn_off a e idx panel_ids gs so po) =
      expected_group_events a (build_group_colors panel_ids (0, 0, 0)) so"
    by (simp add: group_async_turn_off_def Let_def st set_group_color_events [OF c])
  with build_group_colors_members [of panel_ids "(0, 0, 0)"]
  show "\<exists>pcs.
             pcs = build_group_colors panel_ids (0, 0, 0)
             \<and> fst ` set pcs = set panel_ids \<and> distinct (map fst pcs)
             \<and> (\<forall>p \<in> set pcs. snd p = (0, 0, 0))
             \<and> fst (group_async_turn_off a e idx panel_ids gs so po) =
                 expected_group_events a pcs so"
    by blast
qed

theorem group_update_members_only_witness:
  "fst (group_async_turn_on api_example ''e1'' 0 [4, 5, 4]
          \<lparr>kw_brightness = Some 128, kw_rgb_color = Some (200, 100, 0), kw_transition = None\<rparr>
          group_store_example Sent (Responds 204)) =
     [UdpSendto [0, 2, 0, 4, 100, 50, 0, 0, 0, 2, 0, 5, 100, 50, 0, 0, 0, 2]
        ''192.168.1.50'' (Some 60222)]
   \<and> fst (group_async_turn_on api_example ''e1'' 0 [4, 5, 4]
          \<lparr>kw_brightness = Some 128, kw_rgb_color = Some (200, 100, 0), kw_transition = None\<rparr>
          group_store_example (SendRaises OtherException) (Responds 204)) =
     [UdpSendto [0, 2, 0, 4, 100, 50, 0, 0, 0, 2, 0, 5, 100, 50, 0, 0, 0, 2]
        ''192.168.1.50'' (Some 60222),
      HttpPut ''http://192.168.1.50:16021/api/v1/tok/effects''
        (custom_effect ''2 4 1 100 50 0 0 0 5 1 100 50 0 0 0'') (1 / 2)]
   \<and> fst (group_async_turn_on api_example ''e1'' 0 [4, 70000]
          \<lparr>kw_brightness = Some 128, kw_rgb_color = Some (200, 100, 0), kw_transition = None\<rparr>
          group_store_example Sent (Responds 204)) =
     [HttpPut ''http://192.168.1.50:16021/api/v1/tok/effects''
        (custom_effect ''2 4 1 100 50 0 0 0 70000 1 100 50 0 0 0'') (1 / 2)]
   \<and> fst (group_async_turn_off (api_example\<lparr>external_control_enabled := False\<rparr>) ''e1'' 0
          [4, 5, 4] group_store_example Sent (Responds 204)) =
     [HttpPut ''http://192.168.1.50:16021/api/v1/tok/effects''
        (custom_effect ''2 4 1 0 0 0 0 0 5 1 0 0 0 0 0'') (1 / 2)]"
proof -
  let ?a = "api_example\<lparr>external_control_enabled := False\<rparr>"
  let ?kw = "\<lparr>kw_brightness = Some 128, kw_rgb_color = Some (200, 100, 0),
              kw_transition = None\<rparr>"
  let ?old = "\<lparr>is_on = True, brightness = 255, rgb_color = (0, 0, 255)\<rparr>"
  let ?new = "\<lparr>is_on = True, brightness = 128, rgb_color = (200, 100, 0)\<rparr>"
  have old: "group_store_example (group_state_key ''e1'' 0) = Some ?old"
    by (simp add: group_store_example_def)
  have new: "apply_turn_on ?kw ?old = ?new" by (simp add: apply_turn_on_def)
  have rng: "state_in_range (apply_turn_on ?kw ?old)" by (simp add: new state_in_range_def)
  have col: "scaled_color ?new c \<longleftrightarrow> c = (100, 50, 0)" for c
    by (cases c) (auto simp: scaled_color_def truncated_scale_def)
  have pcs: "build_group_colors [4, 5, 4] c = [(4, c), (5, c)]"
    "build_group_colors [4, 70000] c = [(4, c), (70000, c)]" for c :: rgb
    by (simp_all add: build_group_colors_def)
  have url: "base_url api_example = ''http://192.168.1.50:16021/api/v1/tok''"
    "base_url ?a = ''http://192.168.1.50:16021/api/v1/tok''"
    by (simp_all add: base_url_def api_example_def DEFAULT_PORT_def str_int_def str_nat.simps
        digit_char_def)
  have cmd: "control_plane_text [(4, (100, 50, 0)), (5, (100, 50, 0))] 0
      = ''2 4 1 100 50 0 0 0 5 1 100 50 0 0 0''"
    "control_plane_text [(4, (100, 50, 0)), (70000, (100, 50, 0))] 0
      = ''2 4 1 100 50 0 0 0 70000 1 100 50 0 0 0''"
    "control_plane_text [(4, (0, 0, 0)), (5, (0, 0, 0))] 0 = ''2 4 1 0 0 0 0 0 5 1 0 0 0 0 0''"
    by (simp_all add: control_plane_text_def anim_part_def str_int_def str_nat.simps
        digit_char_def)
  have ok: "wire_ok [(4, (100, 50, 0)), (5, (100, 50, 0))]"
    "\<not> wire_ok [(4, (100, 50, 0)), (70000, (100, 50, 0))]"
    by (simp_all add: wire_ok_def)
  have en: "external_control_enabled api_example" "udp_socket api_example \<noteq> None"
    "host api_example = ''192.168.1.50''" "udp_port api_example = Some 60222"
    "\<not> external_control_enabled ?a"
    by (simp_all add: api_example_def)
  have ev: "expected_group_events api_example [(4, (100, 50, 0)), (5, (100, 50, 0))] Sent =
       [UdpSendto [0, 2, 0, 4, 100, 50, 0, 0, 0, 2, 0, 5, 100, 50, 0, 0, 0, 2]
          ''192.168.1.50'' (Some 60222)]"
    "expected_group_events api_example [(4, (100, 50, 0)), (5, (100, 50, 0))]
       (SendRaises OtherException) =
       [UdpSendto [0, 2, 0, 4, 100, 50, 0, 0, 0, 2, 0, 5, 100, 50, 0, 0, 0, 2]
          ''192.168.1.50'' (Some 60222),
        HttpPut ''http://192.168.1.50:16021/api/v1/tok/effects''
          (custom_effect ''2 4 1 100 50 0 0 0 5 1 100 50 0 0 0'') (1 / 2)]"
    "expected_group_events api_example [(4, (100, 50, 0)), (70000, (100, 50, 0))] Sent =
       [HttpPut ''http://192.168.1.50:16021/api/v1/tok/effects''
          (custom_effect ''2 4 1 100 50 0 0 0 70000 1 100 50 0 0 0'') (1 / 2)]"
    "expected_group_events ?a [(4, (0, 0, 0)), (5, (0, 0, 0))] Sent =
       [HttpPut ''http://192.168.1.50:16021/api/v1/tok/effects''
          (custom_effect ''2 4 1 0 0 0 0 0 5 1 0 0 0 0 0'') (1 / 2)]"
    using ok by (simp_all add: expected_group_events_def Let_def en url cmd frame_bytes_def)
  have on: "fst (group_async_turn_on api_example ''e1'' 0 ids ?kw group_store_example so
                   (Responds 204)) =
      expected_group_events api_example (build_group_colors ids (100, 50, 0)) so" for ids so
    using group_update_members_only [where gs = group_store_example and e = "''e1''"
        and idx = 0 and panel_ids = ids and a = api_example and so = so and po = "Responds 204"
        and kw = "?kw", OF old] rng col
    by (auto simp: new)
  have off: "fst (group_async_turn_off ?a ''e1'' 0 [4, 5, 4] group_store_example Sent
                    (Responds 204)) =
      expected_group_events ?a (build_group_colors [4, 5, 4] (0, 0, 0)) Sent"
    using group_update_members_only [where gs = group_store_example and e = "''e1''"
        and idx = 0 and panel_ids = "[4, 5, 4]" and a = ?a and so = Sent and po = "Responds 204",
        OF old]
    by blast
  show ?thesis
    by (simp only: on off pcs ev)
qed

section \<open>Angles after rounding\<close>

lemma arctan_le_self:
  assumes "0 \<le> x"
  shows "arctan x \<le> x"
proof -
  have "0 - arctan 0 \<le> x - arctan x"
  proof (rule DERIV_nonneg_imp_nondecreasing [of 0 x "\<lambda>t. t - arctan t"])
    show "0 \<le> x" by (rule assms)
  next
    fix t :: real
    have "((\<lambda>t. t - arctan t) has_real_derivative (1 - inverse (1 + t\<^sup>2))) (at t)"
      by (auto intro!: derivative_eq_intros)
    moreover have "inverse (1 + t\<^sup>2) \<le> 1"
      by (simp add: inverse_le_1_iff)
    ultimately show "\<exists>y. ((\<lambda>t. t - arctan t) has_real_derivative y) (at t) \<and> 0 \<le> y"
      by (intro exI [of _ "1 - inverse (1 + t\<^sup>2)"]) simp
  qed
  then show ?thesis by simp
qed

lemma round2_just_below:
  assumes "of_int n - 1 / 200 < x" "x < of_int n"
  shows "round2 x = of_int n"
proof -
  have "of_int (100 * n) - 1 / 2 < x * 100" "x * 100 < of_int (100 * n) + 1 / 2"
    using assms by simp_all
  then have "round_half_even (x * 100) = 100 * n"
    by (intro round_half_even_unique) simp_all
  then show ?thesis by (simp add: round2_def)
qed

lemma small_angle:
  "0 < degrees (arctan (1 / 20000))" "degrees (arctan (1 / 20000)) < 1 / 200"
proof -
  have t0: "0 < arctan (1 / 20000 :: real)" by simp
  have t1: "arctan (1 / 20000 :: real) \<le> 1 / 20000" by (rule arctan_le_self) simp
  show "0 < degrees (arctan (1 / 20000))" using t0 by (simp add: degrees_def)
  have "arctan (1 / 20000 :: real) * 180 \<le> 1 / 20000 * 180" using t1 by simp
  also have "\<dots> < 1 / 200 * 2" by simp
  also have "\<dots> \<le> 1 / 200 * pi" using pi_ge_two by (intro mult_left_mono) simp_all
  finally show "degrees (arctan (1 / 20000)) < 1 / 200"
    by (simp add: degrees_def pos_divide_less_eq)
qed

lemma py_mod_unique:
  assumes "0 < m" "of_int k * m \<le> x" "x < (of_int k + 1) * m"
  shows "py_mod x m = x - m * of_int k"
proof -
  have "\<lfloor>x / m\<rfloor> = k"
    using assms by (intro floor_unique) (simp_all add: pos_le_divide_eq pos_divide_less_eq)
  then show ?thesis by (simp add: py_mod_def)
qed

lemma angle_first: "segment_angle 0 0 (layout_example ! 0) = 360"
proof -
  let ?d = "degrees (arctan (1 / 20000))"
  note d = small_angle
  have "atan2 (- 1) 20000 = - arctan (1 / 20000)"
    by (simp add: atan2_def arctan_minus)
  then have deg: "degrees (atan2 (- 1) 20000) = - ?d" by (simp add: degrees_def)
  have "?d \<le> 360" using d by linarith
  then have m: "py_mod (360 - ?d) 360 = 360 - ?d"
    using py_mod_unique [of 360 0 "360 - ?d"] d by simp
  have "round2 (360 - ?d) = of_int 360"
    by (rule round2_just_below) (use d in simp_all)
  then show ?thesis
    by (simp add: segment_angle_def layout_example_def deg m)
qed

lemma angle_second: "segment_angle 0 0 (layout_example ! 1) = 180"
proof -
  let ?d = "degrees (arctan (1 / 20000))"
  note d = small_angle
  have "atan2 1 (- 20000) = pi - arctan (1 / 20000)"
    by (simp add: atan2_def arctan_minus)
  then have deg: "degrees (atan2 1 (- 20000)) = 180 - ?d"
    by (simp add: degrees_def field_simps)
  have "?d \<le> 180" using d by linarith
  then have m: "py_mod (540 - ?d) 360 = 180 - ?d"
    using py_mod_unique [of 360 1 "540 - ?d"] d by simp
  have "round2 (180 - ?d) = of_int 180"
    by (rule round2_just_below) (use d in simp_all)
  then show ?thesis
    by (simp add: segment_angle_def layout_example_def deg m)
qed

text \<open>What does hold for every segment and centroid: the angle is in \<open>[0, 360]\<close>.\<close>

lemma segment_angle_range:
  "0 \<le> segment_angle cx cy p \<and> segment_angle cx cy p \<le> 360"
proof -
  define x where "x = degrees (atan2 (of_int (seg_y p) - cy) (of_int (seg_x p) - cx)) + 360"
  have "of_int \<lfloor>x / 360\<rfloor> \<le> x / 360" "x / 360 < of_int \<lfloor>x / 360\<rfloor> + 1"
    by linarith+
  then have m: "0 \<le> py_mod x 360" "py_mod x 360 < 360"
    by (simp_all add: py_mod_def field_simps)
  have "0 \<le> round_half_even (py_mod x 360 * 100)"
    by (rule round_half_even_ge) (use m in simp)
  moreover have "round_half_even (py_mod x 360 * 100) \<le> 36000"
    by (rule round_half_even_le) (use m in simp)
  ultimately have "0 \<le> round2 (py_mod x 360)" "round2 (py_mod x 360) \<le> 360"
    by (simp_all add: round2_def)
  then show ?thesis by (simp add: segment_angle_def x_def)
qed

text \<open>
  C9. The claim is that every computed angle lies in \<open>[0, 360)\<close>. The code rounds to two
  decimals after reducing modulo 360: for two segments at \<open>(20000, -1)\<close> and
  \<open>(-20000, 1)\<close> the centroid is the origin, the first segment's raw angle is just below
  360 and the stored angle is 360.
\<close>

theorem angle_rounds_up_to_360:
  "map angle_deg (get_all_segments layout_example) = [Some 360, Some 180]"
proof -
  have f: "filter (\<lambda>panel. shapeType panel = SHAPE_TYPE_LINE_SEGMENT) layout_example
      = layout_example"
    by (simp add: layout_example_def SHAPE_TYPE_LINE_SEGMENT_def)
  have n: "layout_example \<noteq> []" "length layout_example = 2"
    "sum_list (map seg_x layout_example) = 0" "sum_list (map seg_y layout_example) = 0"
    by (simp_all add: layout_example_def)
  have l: "layout_example = [layout_example ! 0, layout_example ! 1]"
    by (simp add: layout_example_def)
  have "get_all_segments layout_example
      = map (\<lambda>p. p\<lparr>angle_deg := Some (segment_angle 0 0 p)\<rparr>) layout_example"
    by (simp add: get_all_segments_def f n Let_def)
  then have "map angle_deg (get_all_segments layout_example)
      = map (\<lambda>p. Some (segment_angle 0 0 p)) layout_example"
    by (simp add: comp_def)
  also have "\<dots> = [Some (segment_angle 0 0 (layout_example ! 0)),
      Some (segment_angle 0 0 (layout_example ! 1))]"
    by (subst l) simp
  finally show ?thesis by (simp add: angle_first angle_second [unfolded One_nat_def])
qed

end
